theory Spec2Isabelle
  imports Complex_Main "HOL-Library.Log_Nat"
begin

section \<open>Python values used by the library\<close>

text \<open>
  A Python \<^verbatim>\<open>float\<close> is an IEEE-754 binary64 number.  Its finite values are
  rationals; the two infinities and NaN are separate constructors.  The two zeros
  \<^verbatim>\<open>0.0\<close> and \<^verbatim>\<open>-0.0\<close> are identified: they compare equal, and the
  library only compares, adds, multiplies and divides (never by zero), so the sign of a
  zero cannot reach any other result.
\<close>

datatype pyfloat = Fin rat | PInf | NInf | NaN

text \<open>The comparison \<^verbatim>\<open>a >= b\<close> on floats: every comparison with NaN is false.\<close>

fun fl_ge :: "pyfloat \<Rightarrow> pyfloat \<Rightarrow> bool" where
  "fl_ge NaN _ = False"
| "fl_ge _ NaN = False"
| "fl_ge PInf _ = True"
| "fl_ge _ NInf = True"
| "fl_ge NInf _ = False"
| "fl_ge _ PInf = False"
| "fl_ge (Fin a) (Fin b) = (b \<le> a)"

text \<open>The comparison \<^verbatim>\<open>a == b\<close> on floats: NaN is not equal to itself.\<close>

fun fl_eq :: "pyfloat \<Rightarrow> pyfloat \<Rightarrow> bool" where
  "fl_eq NaN _ = False"
| "fl_eq _ NaN = False"
| "fl_eq a b = (a = b)"

subsection \<open>Rounding to binary64\<close>

text \<open>
  Every arithmetic operation on floats, and the true division of two \<^verbatim>\<open>int\<close>s,
  returns the exact result rounded to the nearest binary64 number, ties to the even
  significand.  \<open>floor_log2 q\<close> is the binary exponent of a positive rational,
  \<open>expo\<close> clamps it at the smallest normal exponent (below it the numbers are subnormal
  and share one spacing), \<open>ulp\<close> is the spacing of the binary64 numbers around \<open>q\<close>
  (53 significant bits), and \<open>rnd\<close> rounds to a multiple of that spacing.
\<close>

definition floor_log2 :: "rat \<Rightarrow> int" where
  "floor_log2 q =
     (let (a, b) = quotient_of q; e0 = bitlen a - bitlen b
      in if 2 powi e0 \<le> q then e0 else e0 - 1)"

definition expo :: "rat \<Rightarrow> int" where
  "expo q = max (floor_log2 \<bar>q\<bar>) (- 1022)"

definition ulp :: "rat \<Rightarrow> rat" where
  "ulp q = 2 powi (expo q - 52)"

definition round_half_even :: "rat \<Rightarrow> int" where
  "round_half_even x =
     (let f = \<lfloor>x\<rfloor>; d = x - of_int f
      in if d < 1 / 2 then f else if 1 / 2 < d then f + 1 else if even f then f else f + 1)"

definition rnd :: "rat \<Rightarrow> rat" where
  "rnd q = (if q = 0 then 0 else of_int (round_half_even (q / ulp q)) * ulp q)"

text \<open>The largest finite binary64 number; a result that rounds beyond it overflows.\<close>

definition max_double :: rat where
  "max_double = (2 ^ 53 - 1) * 2 ^ 971"

definition to_double :: "rat \<Rightarrow> pyfloat" where
  "to_double q =
     (let r = rnd q
      in if max_double < r then PInf else if r < - max_double then NInf else Fin r)"

subsection \<open>Float arithmetic\<close>

text \<open>
  \<^verbatim>\<open>x + y\<close>, \<^verbatim>\<open>x * y\<close> and \<^verbatim>\<open>x / y\<close> on floats.  Python raises nothing when
  one of these overflows: the result is an infinity, and undefined combinations are NaN.
  \<open>fl_div\<close> is only called with a divisor that is not zero.
\<close>

fun fl_sign :: "pyfloat \<Rightarrow> int" where
  "fl_sign (Fin a) = (if a = 0 then 0 else if 0 < a then 1 else - 1)"
| "fl_sign PInf = 1"
| "fl_sign NInf = - 1"
| "fl_sign NaN = 0"

definition signed_inf :: "int \<Rightarrow> pyfloat" where
  "signed_inf s = (if s = 0 then NaN else if 0 < s then PInf else NInf)"

fun fl_add :: "pyfloat \<Rightarrow> pyfloat \<Rightarrow> pyfloat" where
  "fl_add NaN _ = NaN"
| "fl_add _ NaN = NaN"
| "fl_add PInf NInf = NaN"
| "fl_add NInf PInf = NaN"
| "fl_add PInf _ = PInf"
| "fl_add _ PInf = PInf"
| "fl_add NInf _ = NInf"
| "fl_add _ NInf = NInf"
| "fl_add (Fin a) (Fin b) = to_double (a + b)"

fun fl_mul :: "pyfloat \<Rightarrow> pyfloat \<Rightarrow> pyfloat" where
  "fl_mul NaN _ = NaN"
| "fl_mul _ NaN = NaN"
| "fl_mul (Fin a) (Fin b) = to_double (a * b)"
| "fl_mul x y = signed_inf (fl_sign x * fl_sign y)"

fun fl_div :: "pyfloat \<Rightarrow> pyfloat \<Rightarrow> pyfloat" where
  "fl_div NaN _ = NaN"
| "fl_div _ NaN = NaN"
| "fl_div (Fin a) (Fin b) = to_double (a / b)"
| "fl_div (Fin a) _ = Fin 0"
| "fl_div x (Fin b) = signed_inf (fl_sign x * fl_sign (Fin b))"
| "fl_div _ _ = NaN"

section \<open>thresholds.py\<close>

text \<open>
  \<^verbatim>\<open>apply_threshold\<close> starts from the empty list \<^verbatim>\<open>decisions\<close> and appends
  one label per score; the loop carries the list built so far.
\<close>

fun apply_threshold_loop :: "pyfloat list \<Rightarrow> pyfloat \<Rightarrow> int \<Rightarrow> int \<Rightarrow> int list \<Rightarrow> int list" where
  "apply_threshold_loop [] threshold positive_label negative_label decisions = decisions"
| "apply_threshold_loop (score # scores) threshold positive_label negative_label decisions =
     (if fl_ge score threshold
      then apply_threshold_loop scores threshold positive_label negative_label
             (decisions @ [positive_label])
      else apply_threshold_loop scores threshold positive_label negative_label
             (decisions @ [negative_label]))"

definition apply_threshold :: "pyfloat list \<Rightarrow> pyfloat \<Rightarrow> int \<Rightarrow> int \<Rightarrow> int list" where
  "apply_threshold scores threshold positive_label negative_label =
     apply_threshold_loop scores threshold positive_label negative_label []"

section \<open>metrics.py\<close>

subsection \<open>Arguments and errors\<close>

text \<open>
  The label sequences are typed \<^verbatim>\<open>Iterable[int]\<close>, but Python checks nothing at
  the call: an element can be any object, and \<^verbatim>\<open>_to_list_int\<close> tests each one
  with \<^verbatim>\<open>isinstance(v, int)\<close>.  \<^verbatim>\<open>bool\<close> is a subclass of \<^verbatim>\<open>int\<close>
  (\<^verbatim>\<open>True == 1\<close>, \<^verbatim>\<open>False == 0\<close>), a float is not.  Each argument is
  traversed once, by \<^verbatim>\<open>list(values)\<close>: what the functions of this module see of
  it is the finite sequence that traversal yields, or that \<^verbatim>\<open>list()\<close> cannot
  iterate it.
\<close>

datatype pyval = PInt int | PBool bool | PFloat pyfloat | PStr string | PNone

datatype pyiter = Seq "pyval list" | NotIterable

text \<open>
  The exceptions the library can raise.  The first two are a Python \<^verbatim>\<open>TypeError\<close>,
  the next two a \<^verbatim>\<open>ValueError\<close>; the fields are the values formatted into the
  message: the sequence name, the index, the type name or the offending label, the two
  lengths, the set \<^verbatim>\<open>{negative_label, positive_label}\<close>.  The next two are what
  \<^verbatim>\<open>/\<close> itself raises, and the last is the \<^verbatim>\<open>TypeError\<close> of a
  \<^verbatim>\<open>for\<close> loop over an object that cannot be iterated.
\<close>

datatype error =
    NotIterableError string
  | TypeKind string nat string
  | LengthMismatch nat nat
  | LabelDomainError string nat int int int
  | ZeroDivisionError
  | OverflowError
  | IterationTypeError

definition bind_result :: "error + 'a \<Rightarrow> ('a \<Rightarrow> error + 'b) \<Rightarrow> error + 'b" where
  "bind_result r f = (case r of Inl e \<Rightarrow> Inl e | Inr x \<Rightarrow> f x)"

record ConfusionCounts =
  tp :: int
  fp :: int
  tn :: int
  fn :: int

subsection \<open>\<^verbatim>\<open>_to_list_int\<close>\<close>

text \<open>
  \<^verbatim>\<open>isinstance(v, int)\<close>, with the integer the element compares equal to.  The
  list \<^verbatim>\<open>_to_list_int\<close> returns is kept as these integers: every later use of an
  element is a comparison with a label, and the label error reports a \<^verbatim>\<open>bool\<close> by the
  integer it equals.
\<close>

fun as_int :: "pyval \<Rightarrow> int option" where
  "as_int (PInt n) = Some n"
| "as_int (PBool b) = Some (if b then 1 else 0)"
| "as_int (PFloat x) = None"
| "as_int (PStr s) = None"
| "as_int PNone = None"

text \<open>\<^verbatim>\<open>type(v).__name__\<close>.\<close>

fun type_name :: "pyval \<Rightarrow> string" where
  "type_name (PInt n) = ''int''"
| "type_name (PBool b) = ''bool''"
| "type_name (PFloat x) = ''float''"
| "type_name (PStr s) = ''str''"
| "type_name PNone = ''NoneType''"

text \<open>
  The spec does not speak of \<^verbatim>\<open>isinstance\<close>: it says the inputs are coerced and
  that an element fails when it is "not representable as an integer".  In those words
  an \<^verbatim>\<open>int\<close>, a \<^verbatim>\<open>bool\<close> and a float with a whole value such as 2.0 are
  representable.
\<close>

fun int_representable :: "pyval \<Rightarrow> bool" where
  "int_representable (PInt n) = True"
| "int_representable (PBool b) = True"
| "int_representable (PFloat (Fin q)) = (of_int \<lfloor>q\<rfloor> = q)"
| "int_representable (PFloat x) = False"
| "int_representable (PStr s) = False"
| "int_representable PNone = False"

fun to_list_int_loop :: "pyval list \<Rightarrow> string \<Rightarrow> nat \<Rightarrow> error + int list" where
  "to_list_int_loop [] name i = Inr []"
| "to_list_int_loop (v # vs) name i =
     (case as_int v of
        None \<Rightarrow> Inl (TypeKind name i (type_name v))
      | Some n \<Rightarrow> bind_result (to_list_int_loop vs name (Suc i)) (\<lambda>out. Inr (n # out)))"

fun to_list_int :: "pyiter \<Rightarrow> string \<Rightarrow> error + int list" where
  "to_list_int NotIterable name = Inl (NotIterableError name)"
| "to_list_int (Seq out) name = to_list_int_loop out name 0"

subsection \<open>\<^verbatim>\<open>confusion_counts\<close>\<close>

text \<open>
  The loop over \<^verbatim>\<open>enumerate(zip(yt, yp))\<close>: the index, the pairs still to compare
  and the four counters.
\<close>

fun count_loop ::
  "(int \<times> int) list \<Rightarrow> nat \<Rightarrow> int \<Rightarrow> int \<Rightarrow> bool \<Rightarrow> ConfusionCounts \<Rightarrow> error + ConfusionCounts"
where
  "count_loop [] i positive_label negative_label strict_labels c = Inr c"
| "count_loop ((t, p) # rest) i positive_label negative_label strict_labels c =
     (if strict_labels \<and> t \<noteq> positive_label \<and> t \<noteq> negative_label
      then Inl (LabelDomainError ''y_true'' i t negative_label positive_label)
      else if strict_labels \<and> p \<noteq> positive_label \<and> p \<noteq> negative_label
      then Inl (LabelDomainError ''y_pred'' i p negative_label positive_label)
      else
        let t_pos = (t = positive_label); p_pos = (p = positive_label)
        in if t_pos \<and> p_pos
           then count_loop rest (Suc i) positive_label negative_label strict_labels
                  (c\<lparr>tp := tp c + 1\<rparr>)
           else if \<not> t_pos \<and> p_pos
           then count_loop rest (Suc i) positive_label negative_label strict_labels
                  (c\<lparr>fp := fp c + 1\<rparr>)
           else if \<not> t_pos \<and> \<not> p_pos
           then count_loop rest (Suc i) positive_label negative_label strict_labels
                  (c\<lparr>tn := tn c + 1\<rparr>)
           else count_loop rest (Suc i) positive_label negative_label strict_labels
                  (c\<lparr>fn := fn c + 1\<rparr>))"

definition confusion_counts ::
  "pyiter \<Rightarrow> pyiter \<Rightarrow> int \<Rightarrow> int \<Rightarrow> bool \<Rightarrow> error + ConfusionCounts"
where
  "confusion_counts y_true y_pred positive_label negative_label strict_labels =
     bind_result (to_list_int y_true ''y_true'') (\<lambda>yt.
     bind_result (to_list_int y_pred ''y_pred'') (\<lambda>yp.
       if length yt \<noteq> length yp then Inl (LengthMismatch (length yt) (length yp))
       else count_loop (zip yt yp) 0 positive_label negative_label strict_labels
              \<lparr>tp = 0, fp = 0, tn = 0, fn = 0\<rparr>))"

subsection \<open>\<^verbatim>\<open>safe_div\<close> and \<^verbatim>\<open>metrics_from_counts\<close>\<close>

text \<open>
  \<^verbatim>\<open>safe_div\<close> is annotated with floats but called with two \<^verbatim>\<open>int\<close>s for six
  of the seven ratios and with two floats for \<^verbatim>\<open>f1\<close>; \<^verbatim>\<open>==\<close> and \<^verbatim>\<open>/\<close>
  dispatch on what they get.  \<^verbatim>\<open>int / int\<close> is the exact quotient correctly rounded
  and raises \<^verbatim>\<open>OverflowError\<close> when that is too large for a float; an \<^verbatim>\<open>int\<close>
  that meets a float is converted first, which can overflow too; a zero divisor raises
  \<^verbatim>\<open>ZeroDivisionError\<close>.
\<close>

datatype pynum = PyInt int | PyFloat pyfloat

fun py_eq_zero :: "pynum \<Rightarrow> bool" where
  "py_eq_zero (PyInt n) = (n = 0)"
| "py_eq_zero (PyFloat x) = fl_eq x (Fin 0)"

definition finite_or_overflow :: "pyfloat \<Rightarrow> error + pyfloat" where
  "finite_or_overflow x = (case x of Fin r \<Rightarrow> Inr (Fin r) | _ \<Rightarrow> Inl OverflowError)"

definition int_to_float :: "int \<Rightarrow> error + pyfloat" where
  "int_to_float n = finite_or_overflow (to_double (of_int n))"

definition float_truediv :: "pyfloat \<Rightarrow> pyfloat \<Rightarrow> error + pyfloat" where
  "float_truediv x y = (if fl_eq y (Fin 0) then Inl ZeroDivisionError else Inr (fl_div x y))"

fun py_truediv :: "pynum \<Rightarrow> pynum \<Rightarrow> error + pyfloat" where
  "py_truediv (PyInt a) (PyInt b) =
     (if b = 0 then Inl ZeroDivisionError
      else finite_or_overflow (to_double (of_int a / of_int b)))"
| "py_truediv (PyFloat x) (PyFloat y) = float_truediv x y"
| "py_truediv (PyInt a) (PyFloat y) = bind_result (int_to_float a) (\<lambda>x. float_truediv x y)"
| "py_truediv (PyFloat x) (PyInt b) = bind_result (int_to_float b) (\<lambda>y. float_truediv x y)"

definition safe_div :: "pynum \<Rightarrow> pynum \<Rightarrow> error + pyfloat" where
  "safe_div n d = (if py_eq_zero d then Inr (Fin 0) else py_truediv n d)"

text \<open>The report dictionary: its keys are fixed, so it is a record.\<close>

record MetricsReport =
  counts_entry :: ConfusionCounts
  accuracy :: pyfloat
  precision :: pyfloat
  recall :: pyfloat
  specificity :: pyfloat
  f1 :: pyfloat
  fpr :: pyfloat
  fnr :: pyfloat

text \<open>
  In \<^verbatim>\<open>2 * precision * recall\<close> the literal 2 becomes the float 2.0 and both
  products are float products.
\<close>

definition metrics_from_counts :: "ConfusionCounts \<Rightarrow> error + MetricsReport" where
  "metrics_from_counts c =
     (let total = tp c + fp c + tn c + fn c in
      bind_result (safe_div (PyInt (tp c + tn c)) (PyInt total)) (\<lambda>accuracy_v.
      bind_result (safe_div (PyInt (tp c)) (PyInt (tp c + fp c))) (\<lambda>precision_v.
      bind_result (safe_div (PyInt (tp c)) (PyInt (tp c + fn c))) (\<lambda>recall_v.
      bind_result (safe_div (PyInt (tn c)) (PyInt (tn c + fp c))) (\<lambda>specificity_v.
      bind_result (safe_div (PyFloat (fl_mul (fl_mul (Fin 2) precision_v) recall_v))
                            (PyFloat (fl_add precision_v recall_v))) (\<lambda>f1_v.
      bind_result (safe_div (PyInt (fp c)) (PyInt (fp c + tn c))) (\<lambda>fpr_v.
      bind_result (safe_div (PyInt (fn c)) (PyInt (fn c + tp c))) (\<lambda>fnr_v.
        Inr \<lparr>counts_entry = \<lparr>tp = tp c, fp = fp c, tn = tn c, fn = fn c\<rparr>,
             accuracy = accuracy_v, precision = precision_v, recall = recall_v,
             specificity = specificity_v, f1 = f1_v, fpr = fpr_v, fnr = fnr_v\<rparr>))))))))"

definition binary_metrics ::
  "pyiter \<Rightarrow> pyiter \<Rightarrow> int \<Rightarrow> int \<Rightarrow> bool \<Rightarrow> error + MetricsReport"
where
  "binary_metrics y_true y_pred positive_label negative_label strict_labels =
     bind_result (confusion_counts y_true y_pred positive_label negative_label strict_labels)
       metrics_from_counts"

section \<open>core.py\<close>

record ThresholdAnalysisResult =
  threshold :: pyfloat
  y_pred :: "int list"
  counts :: ConfusionCounts
  metrics :: MetricsReport

text \<open>
  The coordinator receives the caller's objects, typed \<^verbatim>\<open>Iterable\<close>, and hands the
  same object to several traversals: \<^verbatim>\<open>y_true\<close> goes to \<^verbatim>\<open>confusion_counts\<close>
  and again to \<^verbatim>\<open>binary_metrics\<close>, and a sweep passes \<^verbatim>\<open>scores\<close> and
  \<^verbatim>\<open>y_true\<close> to every call of \<^verbatim>\<open>analyze_threshold\<close>.  So the object has a
  state.  A list or a tuple yields its elements at every traversal.  A generator, or any
  other iterator, yields the elements still to come at the first traversal and is
  exhausted afterwards: the next traversal yields nothing.  Any other object cannot be
  iterated.  \<^verbatim>\<open>scores\<close> and \<^verbatim>\<open>y_true\<close> are two objects, each with its own
  state; when a caller passes one generator for both, the scores are traversed first, so
  that call is the one whose labels are an exhausted iterator.
\<close>

datatype 'a iterable = Sequence "'a list" | Iterator "'a list" | NonIterable

text \<open>What a traversal started now yields, and the object after a traversal.\<close>

fun remaining :: "'a iterable \<Rightarrow> 'a list option" where
  "remaining (Sequence xs) = Some xs"
| "remaining (Iterator xs) = Some xs"
| "remaining NonIterable = None"

fun traversed :: "'a iterable \<Rightarrow> 'a iterable" where
  "traversed (Sequence xs) = Sequence xs"
| "traversed (Iterator xs) = Iterator []"
| "traversed NonIterable = NonIterable"

text \<open>What \<^verbatim>\<open>list(values)\<close> in \<^verbatim>\<open>_to_list_int\<close> meets when it is handed the object now.\<close>

definition as_pyiter :: "pyval iterable \<Rightarrow> pyiter" where
  "as_pyiter values = (case remaining values of None \<Rightarrow> NotIterable | Some out \<Rightarrow> Seq out)"

text \<open>
  \<^verbatim>\<open>analyze_threshold\<close> traverses \<^verbatim>\<open>scores\<close> once, in the loop of
  \<^verbatim>\<open>apply_threshold\<close>, and \<^verbatim>\<open>y_true\<close> twice: \<^verbatim>\<open>binary_metrics\<close> gets the
  object as \<^verbatim>\<open>confusion_counts\<close> left it.  The predictions are a list of
  \<^verbatim>\<open>int\<close> labels.  Beside the result, the model returns the two objects as the call
  leaves them; an exception ends the caller as well, so no state is kept for it.
\<close>

definition analyze_threshold ::
  "pyfloat iterable \<Rightarrow> pyval iterable \<Rightarrow> pyfloat \<Rightarrow> int \<Rightarrow> int \<Rightarrow> bool \<Rightarrow>
   error + (ThresholdAnalysisResult \<times> pyfloat iterable \<times> pyval iterable)"
where
  "analyze_threshold scores y_true th positive_label negative_label strict_labels =
     (case remaining scores of
        None \<Rightarrow> Inl IterationTypeError
      | Some score_list \<Rightarrow>
          let y_pred_v = apply_threshold score_list th positive_label negative_label in
          bind_result (confusion_counts (as_pyiter y_true) (Seq (map PInt y_pred_v))
                         positive_label negative_label strict_labels) (\<lambda>counts_v.
          bind_result (binary_metrics (as_pyiter (traversed y_true)) (Seq (map PInt y_pred_v))
                         positive_label negative_label strict_labels) (\<lambda>metrics_v.
            Inr (\<lparr>threshold = th, y_pred = y_pred_v, counts = counts_v, metrics = metrics_v\<rparr>,
                 traversed scores, traversed (traversed y_true)))))"



section \<open>The reference formulas of the specification\<close>

text \<open>
  The spec gives the seven ratios as formulas over a safe division: \<open>n/d\<close> is 0.0 when
  \<open>d\<close> is zero and the quotient otherwise.  As floats, a quotient of two counts is the
  binary64 number nearest to the exact quotient, and
  \<open>f1 = 2\<cdot>precision\<cdot>recall / (precision + recall)\<close> is computed from the two floats,
  safely divided as well.
\<close>

definition ref_ratio :: "int \<Rightarrow> int \<Rightarrow> pyfloat" where
  "ref_ratio n d = (if d = 0 then Fin 0 else to_double (of_int n / of_int d))"

definition ref_f1 :: "pyfloat \<Rightarrow> pyfloat \<Rightarrow> pyfloat" where
  "ref_f1 p r =
     (if fl_eq (fl_add p r) (Fin 0) then Fin 0
      else fl_div (fl_mul (fl_mul (Fin 2) p) r) (fl_add p r))"

definition ref_metrics :: "ConfusionCounts \<Rightarrow> MetricsReport" where
  "ref_metrics c =
     \<lparr>counts_entry = c,
      accuracy = ref_ratio (tp c + tn c) (tp c + fp c + tn c + fn c),
      precision = ref_ratio (tp c) (tp c + fp c),
      recall = ref_ratio (tp c) (tp c + fn c),
      specificity = ref_ratio (tn c) (tn c + fp c),
      f1 = ref_f1 (ref_ratio (tp c) (tp c + fp c)) (ref_ratio (tp c) (tp c + fn c)),
      fpr = ref_ratio (fp c) (fp c + tn c),
      fnr = ref_ratio (fn c) (fn c + tp c)\<rparr>"

section \<open>Thresholding\<close>

lemma apply_threshold_loop_map:
  "apply_threshold_loop scores t pos neg acc =
     acc @ map (\<lambda>s. if fl_ge s t then pos else neg) scores"
  by (induction scores arbitrary: acc) simp_all

lemma fl_eq_imp_ge: "fl_eq s t \<Longrightarrow> fl_ge s t"
  by (cases s; cases t) simp_all

text \<open>
  Claim C1.  For every finite sequence of scores, every threshold and every pair of
  labels, \<^verbatim>\<open>apply_threshold\<close> returns a list of the same length and order as the
  scores whose element \<open>i\<close> is the positive label when \<^verbatim>\<open>scores[i] >= threshold\<close>
  and the negative label otherwise.  A score equal to the threshold gives the positive
  label, every element of the output is one of the two labels, and the empty input gives
  the empty output.
\<close>

theorem apply_threshold_spec:
  "length (apply_threshold scores t pos neg) = length scores
   \<and> (\<forall>i < length scores.
        apply_threshold scores t pos neg ! i = (if fl_ge (scores ! i) t then pos else neg))
   \<and> (\<forall>i < length scores. fl_eq (scores ! i) t \<longrightarrow> apply_threshold scores t pos neg ! i = pos)
   \<and> set (apply_threshold scores t pos neg) \<subseteq> {pos, neg}
   \<and> apply_threshold [] t pos neg = []"
  by (auto simp: apply_threshold_def apply_threshold_loop_map fl_eq_imp_ge)

theorem apply_threshold_spec_witness:
  "apply_threshold [Fin (1/5), Fin (1/2), Fin (7/10), NaN] (Fin (1/2)) 1 0 = [0, 1, 1, 0]
   \<and> (1::nat) < length [Fin (1/5), Fin (1/2), Fin (7/10), NaN]
   \<and> fl_eq ([Fin (1/5), Fin (1/2), Fin (7/10), NaN] ! 1) (Fin (1/2))
   \<and> apply_threshold [Fin (1/5), Fin (1/2), Fin (7/10), NaN] (Fin (1/2)) 1 0 ! 1 = 1"
  using apply_threshold_spec [of "[Fin (1/5), Fin (1/2), Fin (7/10), NaN]" "Fin (1/2)" 1 0]
  by (simp add: apply_threshold_def)

section \<open>Confusion counts\<close>

lemma bind_result_simps [simp]:
  "bind_result (Inl e) f = Inl e" "bind_result (Inr x) f = f x"
  by (simp_all add: bind_result_def)

lemma bind_result_Inr_iff:
  "bind_result r f = Inr y \<longleftrightarrow> (\<exists>x. r = Inr x \<and> f x = Inr y)"
  by (cases r) simp_all

lemma bind_result_Inl_iff:
  "bind_result r f = Inl e \<longleftrightarrow> r = Inl e \<or> (\<exists>x. r = Inr x \<and> f x = Inl e)"
  by (cases r) simp_all

lemma count_loop_sum:
  "count_loop ps i pos neg strict c = Inr c' \<Longrightarrow>
     tp c' + fp c' + tn c' + fn c' = tp c + fp c + tn c + fn c + int (length ps)
     \<and> tp c \<le> tp c' \<and> fp c \<le> fp c' \<and> tn c \<le> tn c' \<and> fn c \<le> fn c'"
proof (induction ps arbitrary: i c)
  case Nil
  then show ?case by simp
next
  case (Cons a ps)
  obtain t p where a: "a = (t, p)" by (cases a)
  from Cons.prems have "\<exists>c1. count_loop ps (Suc i) pos neg strict c1 = Inr c'
      \<and> tp c1 + fp c1 + tn c1 + fn c1 = tp c + fp c + tn c + fn c + 1
      \<and> tp c \<le> tp c1 \<and> fp c \<le> fp c1 \<and> tn c \<le> tn c1 \<and> fn c \<le> fn c1"
    unfolding a by (fastforce simp: Let_def split: if_splits)
  then obtain c1 where c1: "count_loop ps (Suc i) pos neg strict c1 = Inr c'"
      "tp c1 + fp c1 + tn c1 + fn c1 = tp c + fp c + tn c + fn c + 1"
      "tp c \<le> tp c1" "fp c \<le> fp c1" "tn c \<le> tn c1" "fn c \<le> fn c1"
    by blast
  from Cons.IH [OF c1(1)] c1(2-) show ?case by simp
qed

lemma to_list_int_loop_length:
  "to_list_int_loop vs name i = Inr out \<Longrightarrow> length out = length vs"
  by (induction vs arbitrary: i out) (auto split: option.splits simp: bind_result_Inr_iff)

text \<open>
  Claim C4.  Whenever \<^verbatim>\<open>confusion_counts\<close> returns counts for two label sequences,
  the sequences have the same length and \<open>tp + fp + tn + fn\<close> is that length; no counter
  is negative, so every compared pair went to exactly one of the four counters.
\<close>

theorem confusion_counts_conservation:
  "confusion_counts (Seq yt) (Seq yp) pos neg strict = Inr c \<Longrightarrow>
     tp c + fp c + tn c + fn c = int (length yt)
     \<and> length yp = length yt
     \<and> 0 \<le> tp c \<and> 0 \<le> fp c \<and> 0 \<le> tn c \<and> 0 \<le> fn c"
  by (auto simp: confusion_counts_def bind_result_Inr_iff split: if_splits
      dest!: count_loop_sum to_list_int_loop_length)

theorem confusion_counts_conservation_witness:
  "confusion_counts (Seq [PInt 1, PInt 0, PInt 1, PInt 0]) (Seq [PInt 1, PInt 1, PInt 0, PInt 0]) 1 0 True
     = Inr \<lparr>tp = 1, fp = 1, tn = 1, fn = 1\<rparr>
   \<and> tp \<lparr>tp = 1, fp = 1, tn = 1, fn = 1\<rparr> + fp \<lparr>tp = 1, fp = 1, tn = 1, fn = 1\<rparr>
     + tn \<lparr>tp = 1, fp = 1, tn = 1, fn = 1\<rparr> + fn \<lparr>tp = 1, fp = 1, tn = 1, fn = 1\<rparr>
     = int (length [PInt 1, PInt 0, PInt 1, PInt 0])"
proof -
  have h: "confusion_counts (Seq [PInt 1, PInt 0, PInt 1, PInt 0])
             (Seq [PInt 1, PInt 1, PInt 0, PInt 0]) 1 0 True
           = Inr \<lparr>tp = 1, fp = 1, tn = 1, fn = 1\<rparr>"
    by (simp add: confusion_counts_def)
  from confusion_counts_conservation [OF h] h show ?thesis by simp
qed

lemma count_loop_step:
  "\<not> (strict \<and> t \<noteq> pos \<and> t \<noteq> neg) \<Longrightarrow> \<not> (strict \<and> p \<noteq> pos \<and> p \<noteq> neg) \<Longrightarrow>
     \<exists>c1. count_loop ((t, p) # ps) i pos neg strict c = count_loop ps (Suc i) pos neg strict c1"
  by (cases "t = pos"; cases "p = pos") (auto simp: Let_def)

lemma count_loop_error:
  "count_loop ps i pos neg strict c = Inl e \<Longrightarrow>
     strict \<and> (\<exists>name j v. e = LabelDomainError name j v neg pos)"
proof (induction ps arbitrary: i c)
  case Nil
  then show ?case by simp
next
  case (Cons a ps)
  obtain t p where a: "a = (t, p)" by (cases a)
  show ?case
  proof (cases "(strict \<and> t \<noteq> pos \<and> t \<noteq> neg) \<or> (strict \<and> p \<noteq> pos \<and> p \<noteq> neg)")
    case True
    with Cons.prems show ?thesis unfolding a by (auto split: if_splits)
  next
    case False
    then obtain c1 where
      "count_loop (a # ps) i pos neg strict c = count_loop ps (Suc i) pos neg strict c1"
      unfolding a using count_loop_step [of strict t pos neg p ps i c] by blast
    with Cons.prems have "count_loop ps (Suc i) pos neg strict c1 = Inl e" by simp
    then show ?thesis by (rule Cons.IH)
  qed
qed

lemma count_loop_in_domain:
  "\<forall>k<length ps. (fst (ps ! k) = pos \<or> fst (ps ! k) = neg) \<and> (snd (ps ! k) = pos \<or> snd (ps ! k) = neg)
     \<Longrightarrow> \<exists>c'. count_loop ps i pos neg strict c = Inr c'"
proof (induction ps arbitrary: i c)
  case Nil
  then show ?case by simp
next
  case (Cons a ps)
  obtain t p where a: "a = (t, p)" by (cases a)
  from Cons.prems have hd: "(t = pos \<or> t = neg) \<and> (p = pos \<or> p = neg)"
    unfolding a by (auto dest: spec [of _ 0])
  from Cons.prems have tl: "\<forall>k<length ps. (fst (ps ! k) = pos \<or> fst (ps ! k) = neg)
      \<and> (snd (ps ! k) = pos \<or> snd (ps ! k) = neg)"
    by (auto dest: spec [of _ "Suc k" for k])
  from hd obtain c1 where
    "count_loop (a # ps) i pos neg strict c = count_loop ps (Suc i) pos neg strict c1"
    unfolding a using count_loop_step [of strict t pos neg p ps i c] by blast
  with Cons.IH [OF tl] show ?case by simp
qed

lemma count_loop_strict_error:
  "\<exists>k<length ps. (fst (ps ! k) \<noteq> pos \<and> fst (ps ! k) \<noteq> neg) \<or> (snd (ps ! k) \<noteq> pos \<and> snd (ps ! k) \<noteq> neg)
   \<Longrightarrow> \<exists>name j v. count_loop ps i pos neg True c = Inl (LabelDomainError name (i + j) v neg pos)
        \<and> j < length ps \<and> v \<noteq> pos \<and> v \<noteq> neg
        \<and> (name = ''y_true'' \<and> v = fst (ps ! j)
            \<or> name = ''y_pred'' \<and> v = snd (ps ! j) \<and> (fst (ps ! j) = pos \<or> fst (ps ! j) = neg))
        \<and> (\<forall>k<j. (fst (ps ! k) = pos \<or> fst (ps ! k) = neg) \<and> (snd (ps ! k) = pos \<or> snd (ps ! k) = neg))"
proof (induction ps arbitrary: i c)
  case Nil
  then show ?case by simp
next
  case (Cons a ps)
  obtain t p where a: "a = (t, p)" by (cases a)
  show ?case
  proof (cases "t \<noteq> pos \<and> t \<noteq> neg")
    case True
    then have "count_loop (a # ps) i pos neg True c = Inl (LabelDomainError ''y_true'' (i + 0) t neg pos)"
      unfolding a by simp
    with True show ?thesis unfolding a
      by (intro exI [of _ "''y_true''"] exI [of _ 0] exI [of _ t]) simp
  next
    case tok: False
    show ?thesis
    proof (cases "p \<noteq> pos \<and> p \<noteq> neg")
      case True
      with tok have "count_loop (a # ps) i pos neg True c = Inl (LabelDomainError ''y_pred'' (i + 0) p neg pos)"
        unfolding a by simp
      with True tok show ?thesis unfolding a
        by (intro exI [of _ "''y_pred''"] exI [of _ 0] exI [of _ p]) simp
    next
      case pok: False
      from Cons.prems obtain k where k: "k < length (a # ps)"
        "(fst ((a # ps) ! k) \<noteq> pos \<and> fst ((a # ps) ! k) \<noteq> neg)
          \<or> (snd ((a # ps) ! k) \<noteq> pos \<and> snd ((a # ps) ! k) \<noteq> neg)"
        by blast
      from k tok pok have "k \<noteq> 0" unfolding a by (cases k) auto
      then obtain k' where k': "k = Suc k'" by (cases k) auto
      with k have ex: "\<exists>k<length ps. (fst (ps ! k) \<noteq> pos \<and> fst (ps ! k) \<noteq> neg)
          \<or> (snd (ps ! k) \<noteq> pos \<and> snd (ps ! k) \<noteq> neg)"
        by auto
      from tok pok obtain c1 where step:
        "count_loop (a # ps) i pos neg True c = count_loop ps (Suc i) pos neg True c1"
        unfolding a using count_loop_step [of True t pos neg p ps i c] by blast
      from Cons.IH [OF ex, of "Suc i" c1] obtain name j v where
        r: "count_loop ps (Suc i) pos neg True c1 = Inl (LabelDomainError name (Suc i + j) v neg pos)"
        and j: "j < length ps" "v \<noteq> pos" "v \<noteq> neg"
        and nm: "name = ''y_true'' \<and> v = fst (ps ! j)
            \<or> name = ''y_pred'' \<and> v = snd (ps ! j) \<and> (fst (ps ! j) = pos \<or> fst (ps ! j) = neg)"
        and before: "\<forall>k<j. (fst (ps ! k) = pos \<or> fst (ps ! k) = neg) \<and> (snd (ps ! k) = pos \<or> snd (ps ! k) = neg)"
        by blast
      have before': "\<forall>k<Suc j. (fst ((a # ps) ! k) = pos \<or> fst ((a # ps) ! k) = neg)
          \<and> (snd ((a # ps) ! k) = pos \<or> snd ((a # ps) ! k) = neg)"
      proof (intro allI impI)
        fix k assume "k < Suc j"
        then show "(fst ((a # ps) ! k) = pos \<or> fst ((a # ps) ! k) = neg)
          \<and> (snd ((a # ps) ! k) = pos \<or> snd ((a # ps) ! k) = neg)"
          using tok pok before unfolding a by (cases k) auto
      qed
      show ?thesis
        using step r j nm before'
        by (intro exI [of _ name] exI [of _ "Suc j"] exI [of _ v]) simp
    qed
  qed
qed

text \<open>
  Claim C5, as amended.  The claim promises a label-domain error for every input with
  a label outside \<open>{positive_label, negative_label}\<close>; the type check and the length
  check come first, so that holds for two sequences of \<^verbatim>\<open>int\<close>s of equal length.
  For those, with \<^verbatim>\<open>strict_labels\<close> true: if some element of either sequence is
  neither label, \<^verbatim>\<open>confusion_counts\<close> fails with a label-domain error naming the
  sequence, the index and the offending value, at the first index where either sequence
  has such an element (\<^verbatim>\<open>y_true\<close> is looked at before \<^verbatim>\<open>y_pred\<close> there); if
  every element is one of the two labels, it returns counts.
\<close>

theorem strict_labels_domain_error:
  assumes "to_list_int y_true ''y_true'' = Inr yt"
    and "to_list_int y_pred' ''y_pred'' = Inr yp"
    and "length yt = length yp"
  shows "((\<exists>k<length yt. (yt ! k \<noteq> pos \<and> yt ! k \<noteq> neg) \<or> (yp ! k \<noteq> pos \<and> yp ! k \<noteq> neg)) \<longrightarrow>
           (\<exists>name j v. confusion_counts y_true y_pred' pos neg True
                          = Inl (LabelDomainError name j v neg pos)
              \<and> j < length yt \<and> v \<noteq> pos \<and> v \<noteq> neg
              \<and> (name = ''y_true'' \<and> v = yt ! j
                  \<or> name = ''y_pred'' \<and> v = yp ! j \<and> (yt ! j = pos \<or> yt ! j = neg))
              \<and> (\<forall>k<j. (yt ! k = pos \<or> yt ! k = neg) \<and> (yp ! k = pos \<or> yp ! k = neg))))
       \<and> ((\<forall>k<length yt. (yt ! k = pos \<or> yt ! k = neg) \<and> (yp ! k = pos \<or> yp ! k = neg)) \<longrightarrow>
           (\<exists>c. confusion_counts y_true y_pred' pos neg True = Inr c))"
proof -
  let ?ps = "zip yt yp"
  have cc: "confusion_counts y_true y_pred' pos neg True =
      count_loop ?ps 0 pos neg True \<lparr>tp = 0, fp = 0, tn = 0, fn = 0\<rparr>"
    using assms by (simp add: confusion_counts_def)
  have len: "length ?ps = length yt" using assms(3) by simp
  have nth: "\<And>k. k < length yt \<Longrightarrow> fst (?ps ! k) = yt ! k \<and> snd (?ps ! k) = yp ! k"
    using assms(3) by simp
  show ?thesis
  proof (intro conjI impI)
    assume "\<exists>k<length yt. (yt ! k \<noteq> pos \<and> yt ! k \<noteq> neg) \<or> (yp ! k \<noteq> pos \<and> yp ! k \<noteq> neg)"
    then have "\<exists>k<length ?ps. (fst (?ps ! k) \<noteq> pos \<and> fst (?ps ! k) \<noteq> neg)
        \<or> (snd (?ps ! k) \<noteq> pos \<and> snd (?ps ! k) \<noteq> neg)"
      using nth len by auto
    from count_loop_strict_error [OF this, of 0 "\<lparr>tp = 0, fp = 0, tn = 0, fn = 0\<rparr>"]
    obtain name j v where
      r: "count_loop ?ps 0 pos neg True \<lparr>tp = 0, fp = 0, tn = 0, fn = 0\<rparr>
            = Inl (LabelDomainError name j v neg pos)"
      and j: "j < length ?ps" "v \<noteq> pos" "v \<noteq> neg"
      and nm: "name = ''y_true'' \<and> v = fst (?ps ! j)
            \<or> name = ''y_pred'' \<and> v = snd (?ps ! j) \<and> (fst (?ps ! j) = pos \<or> fst (?ps ! j) = neg)"
      and before: "\<forall>k<j. (fst (?ps ! k) = pos \<or> fst (?ps ! k) = neg)
            \<and> (snd (?ps ! k) = pos \<or> snd (?ps ! k) = neg)"
      by auto
    from j(1) len have jl: "j < length yt" by simp
    have b2: "\<forall>k<j. (yt ! k = pos \<or> yt ! k = neg) \<and> (yp ! k = pos \<or> yp ! k = neg)"
    proof (intro allI impI)
      fix k assume kj: "k < j"
      with jl have "k < length yt" by simp
      from nth [OF this] before kj
      show "(yt ! k = pos \<or> yt ! k = neg) \<and> (yp ! k = pos \<or> yp ! k = neg)" by auto
    qed
    from nm nth [OF jl] have nm2: "name = ''y_true'' \<and> v = yt ! j
        \<or> name = ''y_pred'' \<and> v = yp ! j \<and> (yt ! j = pos \<or> yt ! j = neg)"
      by auto
    show "\<exists>name j v. confusion_counts y_true y_pred' pos neg True
                          = Inl (LabelDomainError name j v neg pos)
              \<and> j < length yt \<and> v \<noteq> pos \<and> v \<noteq> neg
              \<and> (name = ''y_true'' \<and> v = yt ! j
                  \<or> name = ''y_pred'' \<and> v = yp ! j \<and> (yt ! j = pos \<or> yt ! j = neg))
              \<and> (\<forall>k<j. (yt ! k = pos \<or> yt ! k = neg) \<and> (yp ! k = pos \<or> yp ! k = neg))"
      using r jl j(2,3) nm2 b2 unfolding cc
      by (intro exI [of _ name] exI [of _ j] exI [of _ v]) simp
  next
    assume "\<forall>k<length yt. (yt ! k = pos \<or> yt ! k = neg) \<and> (yp ! k = pos \<or> yp ! k = neg)"
    then have "\<forall>k<length ?ps. (fst (?ps ! k) = pos \<or> fst (?ps ! k) = neg)
        \<and> (snd (?ps ! k) = pos \<or> snd (?ps ! k) = neg)"
      using nth len by auto
    from count_loop_in_domain [OF this]
    show "\<exists>c. confusion_counts y_true y_pred' pos neg True = Inr c"
      unfolding cc by blast
  qed
qed

theorem strict_labels_domain_error_witness:
  "confusion_counts (Seq [PInt 1, PInt 2]) (Seq [PInt 0, PInt 7]) 1 0 True
     = Inl (LabelDomainError ''y_true'' 1 2 0 1)
   \<and> (\<exists>name j v. confusion_counts (Seq [PInt 1, PInt 2]) (Seq [PInt 0, PInt 7]) 1 0 True
          = Inl (LabelDomainError name j v 0 1) \<and> j < length [1, 2 :: int])
   \<and> (\<exists>c. confusion_counts (Seq [PInt 1, PInt 0]) (Seq [PInt 0, PInt 1]) 1 0 True = Inr c)"
proof -
  have a: "to_list_int (Seq [PInt 1, PInt 2]) ''y_true'' = Inr [1, 2]"
    and b: "to_list_int (Seq [PInt 0, PInt 7]) ''y_pred'' = Inr [0, 7]"
    and a': "to_list_int (Seq [PInt 1, PInt 0]) ''y_true'' = Inr [1, 0]"
    and b': "to_list_int (Seq [PInt 0, PInt 1]) ''y_pred'' = Inr [0, 1]"
    and l: "length [1, 2 :: int] = length [0, 7 :: int]"
    and l': "length [1, 0 :: int] = length [0, 1 :: int]"
    by simp_all
  have bad: "\<exists>k<length [1, 2 :: int]. ([1, 2 :: int] ! k \<noteq> 1 \<and> [1, 2 :: int] ! k \<noteq> 0)
      \<or> ([0, 7 :: int] ! k \<noteq> 1 \<and> [0, 7 :: int] ! k \<noteq> 0)"
    by (intro exI [of _ 1]) simp
  have good: "\<forall>k<length [1, 0 :: int]. ([1, 0 :: int] ! k = 1 \<or> [1, 0 :: int] ! k = 0)
      \<and> ([0, 1 :: int] ! k = 1 \<or> [0, 1 :: int] ! k = 0)"
    by (simp add: less_Suc_eq)
  have v: "confusion_counts (Seq [PInt 1, PInt 2]) (Seq [PInt 0, PInt 7]) 1 0 True
     = Inl (LabelDomainError ''y_true'' 1 2 0 1)"
    by (simp add: confusion_counts_def)
  from strict_labels_domain_error [OF a b l, of 1 0] bad
    strict_labels_domain_error [OF a' b' l', of 1 0] good v
  show ?thesis by blast
qed

text \<open>
  Claim C5 as stated fails where the lengths differ: \<^verbatim>\<open>y_true = [2]\<close> has a label
  outside \<open>{1, 0}\<close>, and against \<^verbatim>\<open>y_pred = [1, 0]\<close> the error is the length
  mismatch, raised before any label is looked at.
\<close>

theorem strict_labels_length_first:
  "(2::int) \<noteq> 1 \<and> (2::int) \<noteq> 0
   \<and> confusion_counts (Seq [PInt 2]) (Seq [PInt 1, PInt 0]) 1 0 True = Inl (LengthMismatch 1 2)"
  by (simp add: confusion_counts_def)

lemma to_list_int_loop_error:
  "to_list_int_loop vs name i = Inl e \<Longrightarrow> \<exists>j t. e = TypeKind name j t"
  by (induction vs arbitrary: i) (auto split: option.splits simp: bind_result_Inl_iff)

lemma to_list_int_error:
  "to_list_int ys name = Inl e \<Longrightarrow> e = NotIterableError name \<or> (\<exists>j t. e = TypeKind name j t)"
  by (cases ys) (auto dest: to_list_int_loop_error)

lemma to_list_int_loop_PInt: "to_list_int_loop (map PInt xs) name i = Inr xs"
  by (induction xs arbitrary: i) simp_all

text \<open>
  Claim C6.  \<^verbatim>\<open>confusion_counts\<close> fails with the length mismatch exactly when both
  arguments pass \<^verbatim>\<open>_to_list_int\<close> and the two lists it returns differ in length;
  the error carries the two lengths.  \<^verbatim>\<open>analyze_threshold\<close> passes on unchanged any
  error of \<^verbatim>\<open>confusion_counts\<close> on \<^verbatim>\<open>y_true\<close> and its predictions, and the
  predictions have the length of the scores: with \<^verbatim>\<open>len(scores) != len(y_true)\<close> it
  fails with the length mismatch of those two lengths.  For \<^verbatim>\<open>analyze_threshold\<close> the
  scores and the labels are what the two objects yield at the call, whether the objects
  are sequences or iterators.
\<close>

theorem length_mismatch_iff:
  "(confusion_counts y_true y_pred' pos neg strict = Inl (LengthMismatch a b)
      \<longleftrightarrow> (\<exists>yt yp. to_list_int y_true ''y_true'' = Inr yt
                  \<and> to_list_int y_pred' ''y_pred'' = Inr yp
                  \<and> length yt \<noteq> length yp \<and> a = length yt \<and> b = length yp))
   \<and> (\<forall>xs e. remaining scores = Some xs
             \<and> confusion_counts (as_pyiter y_true_obj) (Seq (map PInt (apply_threshold xs t pos neg)))
                 pos neg strict = Inl e
          \<longrightarrow> analyze_threshold scores y_true_obj t pos neg strict = Inl e)
   \<and> (\<forall>xs yt. remaining scores = Some xs
             \<and> to_list_int (as_pyiter y_true_obj) ''y_true'' = Inr yt \<and> length xs \<noteq> length yt
          \<longrightarrow> analyze_threshold scores y_true_obj t pos neg strict
                = Inl (LengthMismatch (length yt) (length xs)))"
proof (intro conjI allI impI)
  show "confusion_counts y_true y_pred' pos neg strict = Inl (LengthMismatch a b)
      \<longleftrightarrow> (\<exists>yt yp. to_list_int y_true ''y_true'' = Inr yt
                  \<and> to_list_int y_pred' ''y_pred'' = Inr yp
                  \<and> length yt \<noteq> length yp \<and> a = length yt \<and> b = length yp)"
    by (auto simp: confusion_counts_def bind_result_Inl_iff split: if_splits
        dest: to_list_int_error count_loop_error)
next
  fix xs e
  assume "remaining scores = Some xs
      \<and> confusion_counts (as_pyiter y_true_obj) (Seq (map PInt (apply_threshold xs t pos neg)))
             pos neg strict = Inl e"
  then show "analyze_threshold scores y_true_obj t pos neg strict = Inl e"
    by (simp add: analyze_threshold_def Let_def)
next
  fix xs yt
  assume h: "remaining scores = Some xs
      \<and> to_list_int (as_pyiter y_true_obj) ''y_true'' = Inr yt \<and> length xs \<noteq> length yt"
  have "length (apply_threshold xs t pos neg) = length xs"
    by (simp add: apply_threshold_def apply_threshold_loop_map)
  with h have "confusion_counts (as_pyiter y_true_obj) (Seq (map PInt (apply_threshold xs t pos neg)))
             pos neg strict = Inl (LengthMismatch (length yt) (length xs))"
    by (auto simp: confusion_counts_def to_list_int_loop_PInt)
  with h show "analyze_threshold scores y_true_obj t pos neg strict
                = Inl (LengthMismatch (length yt) (length xs))"
    by (simp add: analyze_threshold_def Let_def)
qed

theorem length_mismatch_iff_witness:
  "analyze_threshold (Sequence [Fin (1/5), Fin (7/10), Fin (2/5)]) (Sequence [PInt 0, PInt 1])
       (Fin (1/2)) 1 0 True
     = Inl (LengthMismatch 2 3)
   \<and> analyze_threshold (Iterator [Fin (1/5), Fin (7/10), Fin (2/5)]) (Iterator [PInt 0, PInt 1])
       (Fin (1/2)) 1 0 True
     = Inl (LengthMismatch 2 3)
   \<and> confusion_counts (Seq [PInt 1, PInt 0]) (Seq [PInt 1]) 1 0 True = Inl (LengthMismatch 2 1)"
proof -
  have a: "remaining (Sequence [Fin (1/5), Fin (7/10), Fin (2/5)]) = Some [Fin (1/5), Fin (7/10), Fin (2/5)]
      \<and> to_list_int (as_pyiter (Sequence [PInt 0, PInt 1])) ''y_true'' = Inr [0, 1]
      \<and> length [Fin (1/5), Fin (7/10), Fin (2/5)] \<noteq> length [0, 1 :: int]"
    by (simp add: as_pyiter_def)
  have a': "remaining (Iterator [Fin (1/5), Fin (7/10), Fin (2/5)]) = Some [Fin (1/5), Fin (7/10), Fin (2/5)]
      \<and> to_list_int (as_pyiter (Iterator [PInt 0, PInt 1])) ''y_true'' = Inr [0, 1]
      \<and> length [Fin (1/5), Fin (7/10), Fin (2/5)] \<noteq> length [0, 1 :: int]"
    by (simp add: as_pyiter_def)
  have b: "\<exists>yt yp. to_list_int (Seq [PInt 1, PInt 0]) ''y_true'' = Inr yt
                  \<and> to_list_int (Seq [PInt 1]) ''y_pred'' = Inr yp
                  \<and> length yt \<noteq> length yp \<and> 2 = length yt \<and> 1 = length yp"
    by (intro exI [of _ "[1, 0]"] exI [of _ "[1]"]) simp
  from length_mismatch_iff [of "Seq [PInt 0, PInt 1]" "Seq [PInt 1]" 1 0 True 2 3
      "Sequence [Fin (1/5), Fin (7/10), Fin (2/5)]" "Sequence [PInt 0, PInt 1]" "Fin (1/2)"] a
  have one: "analyze_threshold (Sequence [Fin (1/5), Fin (7/10), Fin (2/5)]) (Sequence [PInt 0, PInt 1])
       (Fin (1/2)) 1 0 True = Inl (LengthMismatch 2 3)"
    by auto
  from length_mismatch_iff [of "Seq [PInt 0, PInt 1]" "Seq [PInt 1]" 1 0 True 2 3
      "Iterator [Fin (1/5), Fin (7/10), Fin (2/5)]" "Iterator [PInt 0, PInt 1]" "Fin (1/2)"] a'
  have one': "analyze_threshold (Iterator [Fin (1/5), Fin (7/10), Fin (2/5)]) (Iterator [PInt 0, PInt 1])
       (Fin (1/2)) 1 0 True = Inl (LengthMismatch 2 3)"
    by auto
  from length_mismatch_iff [of "Seq [PInt 1, PInt 0]" "Seq [PInt 1]" 1 0 True 2 1] b
  have two: "confusion_counts (Seq [PInt 1, PInt 0]) (Seq [PInt 1]) 1 0 True = Inl (LengthMismatch 2 1)"
    by blast
  from one one' two show ?thesis by simp
qed

lemma count_loop_lenient:
  "count_loop ps i pos neg False c =
     Inr \<lparr>tp = tp c + int (length (filter (\<lambda>(t, p). t = pos \<and> p = pos) ps)),
          fp = fp c + int (length (filter (\<lambda>(t, p). t \<noteq> pos \<and> p = pos) ps)),
          tn = tn c + int (length (filter (\<lambda>(t, p). t \<noteq> pos \<and> p \<noteq> pos) ps)),
          fn = fn c + int (length (filter (\<lambda>(t, p). t = pos \<and> p \<noteq> pos) ps))\<rparr>"
proof (induction ps arbitrary: i c)
  case Nil
  then show ?case by simp
next
  case (Cons a ps)
  obtain t p where a: "a = (t, p)" by (cases a)
  show ?case unfolding a
    by (cases "t = pos"; cases "p = pos") (simp_all add: Let_def Cons.IH)
qed

text \<open>
  Claim C7.  With \<^verbatim>\<open>strict_labels\<close> false, \<^verbatim>\<open>confusion_counts\<close> never raises a
  label-domain error, its result does not depend on \<^verbatim>\<open>negative_label\<close>, and on two
  lists of equal length each counter is the number of pairs with the matching pair of
  flags \<open>t = positive_label\<close>, \<open>p = positive_label\<close>.  With the default labels
  \<^verbatim>\<open>y_true = [2, 1]\<close>, \<^verbatim>\<open>y_pred = [1, 2]\<close> gives \<open>tp = 0, fp = 1, tn = 0, fn = 1\<close>.
\<close>

theorem lenient_labels:
  "(\<forall>name j v a b. confusion_counts y_true y_pred' pos neg False
        \<noteq> Inl (LabelDomainError name j v a b))
   \<and> confusion_counts y_true y_pred' pos neg False = confusion_counts y_true y_pred' pos neg' False
   \<and> (\<forall>yt yp. to_list_int y_true ''y_true'' = Inr yt \<and> to_list_int y_pred' ''y_pred'' = Inr yp
          \<and> length yt = length yp
        \<longrightarrow> confusion_counts y_true y_pred' pos neg False =
            Inr \<lparr>tp = int (length (filter (\<lambda>(t, p). t = pos \<and> p = pos) (zip yt yp))),
                 fp = int (length (filter (\<lambda>(t, p). t \<noteq> pos \<and> p = pos) (zip yt yp))),
                 tn = int (length (filter (\<lambda>(t, p). t \<noteq> pos \<and> p \<noteq> pos) (zip yt yp))),
                 fn = int (length (filter (\<lambda>(t, p). t = pos \<and> p \<noteq> pos) (zip yt yp)))\<rparr>)
   \<and> confusion_counts (Seq [PInt 2, PInt 1]) (Seq [PInt 1, PInt 2]) 1 0 False
       = Inr \<lparr>tp = 0, fp = 1, tn = 0, fn = 1\<rparr>"
proof (intro conjI allI impI)
  fix name j v a b
  show "confusion_counts y_true y_pred' pos neg False \<noteq> Inl (LabelDomainError name j v a b)"
    by (auto simp: confusion_counts_def bind_result_Inl_iff split: if_splits
        dest: to_list_int_error count_loop_error)
next
  show "confusion_counts y_true y_pred' pos neg False = confusion_counts y_true y_pred' pos neg' False"
    by (cases "to_list_int y_true ''y_true''"; cases "to_list_int y_pred' ''y_pred''")
      (simp_all add: confusion_counts_def count_loop_lenient)
next
  fix yt yp
  assume "to_list_int y_true ''y_true'' = Inr yt \<and> to_list_int y_pred' ''y_pred'' = Inr yp
          \<and> length yt = length yp"
  then show "confusion_counts y_true y_pred' pos neg False =
            Inr \<lparr>tp = int (length (filter (\<lambda>(t, p). t = pos \<and> p = pos) (zip yt yp))),
                 fp = int (length (filter (\<lambda>(t, p). t \<noteq> pos \<and> p = pos) (zip yt yp))),
                 tn = int (length (filter (\<lambda>(t, p). t \<noteq> pos \<and> p \<noteq> pos) (zip yt yp))),
                 fn = int (length (filter (\<lambda>(t, p). t = pos \<and> p \<noteq> pos) (zip yt yp)))\<rparr>"
    by (simp add: confusion_counts_def count_loop_lenient)
next
  show "confusion_counts (Seq [PInt 2, PInt 1]) (Seq [PInt 1, PInt 2]) 1 0 False
       = Inr \<lparr>tp = 0, fp = 1, tn = 0, fn = 1\<rparr>"
    by (simp add: confusion_counts_def)
qed

theorem lenient_labels_witness:
  "confusion_counts (Seq [PInt 5, PInt 1, PInt 1, PInt (- 3)]) (Seq [PInt 1, PInt 1, PInt 8, PInt 0]) 1 0 False
     = Inr \<lparr>tp = 1, fp = 1, tn = 1, fn = 1\<rparr>"
proof -
  have h: "to_list_int (Seq [PInt 5, PInt 1, PInt 1, PInt (- 3)]) ''y_true'' = Inr [5, 1, 1, - 3]
     \<and> to_list_int (Seq [PInt 1, PInt 1, PInt 8, PInt 0]) ''y_pred'' = Inr [1, 1, 8, 0]
     \<and> length [5, 1, 1, - 3 :: int] = length [1, 1, 8, 0 :: int]"
    by simp
  from lenient_labels [of "Seq [PInt 5, PInt 1, PInt 1, PInt (- 3)]"
      "Seq [PInt 1, PInt 1, PInt 8, PInt 0]" 1 0 0] h
  have "confusion_counts (Seq [PInt 5, PInt 1, PInt 1, PInt (- 3)]) (Seq [PInt 1, PInt 1, PInt 8, PInt 0]) 1 0 False
     = Inr \<lparr>tp = int (length (filter (\<lambda>(t, p). t = 1 \<and> p = 1) (zip [5, 1, 1, - 3 :: int] [1, 1, 8, 0 :: int]))),
                 fp = int (length (filter (\<lambda>(t, p). t \<noteq> 1 \<and> p = 1) (zip [5, 1, 1, - 3 :: int] [1, 1, 8, 0 :: int]))),
                 tn = int (length (filter (\<lambda>(t, p). t \<noteq> 1 \<and> p \<noteq> 1) (zip [5, 1, 1, - 3 :: int] [1, 1, 8, 0 :: int]))),
                 fn = int (length (filter (\<lambda>(t, p). t = 1 \<and> p \<noteq> 1) (zip [5, 1, 1, - 3 :: int] [1, 1, 8, 0 :: int])))\<rparr>"
    by blast
  then show ?thesis by simp
qed

section \<open>Properties of rounding\<close>

subsection \<open>The binary exponent\<close>

lemma powi_pos: "0 < (2::rat) powi e"
  by (simp add: zero_less_power_int)

lemma powi_mono: "e \<le> e' \<Longrightarrow> (2::rat) powi e \<le> 2 powi e'"
  by (rule power_int_increasing) simp_all

lemma powi_strict_mono: "e < e' \<Longrightarrow> (2::rat) powi e < 2 powi e'"
  by (rule power_int_strict_increasing) simp_all

lemma powi_Suc: "(2::rat) powi (e + 1) = 2 * 2 powi e"
  by (simp add: power_int_add)

lemma powi_add: "(2::rat) powi (a + b) = 2 powi a * 2 powi b"
  by (simp add: power_int_add)

lemma powi_diff: "(2::rat) powi (a - b) = 2 powi a / 2 powi b"
  by (simp add: power_int_diff)

lemma of_int_bitlen_bounds:
  assumes "0 < a"
  shows "(2::rat) powi (bitlen a - 1) \<le> of_int a" and "of_int a < (2::rat) powi bitlen a"
proof -
  from bitlen_bounds [OF assms]
  have l: "2 ^ nat (bitlen a - 1) \<le> a" and u: "a < 2 ^ nat (bitlen a)" by simp_all
  from assms have b1: "1 \<le> bitlen a"
    using bitlen_eq_zero_iff [of a] bitlen_nonneg [of a] by linarith
  have "(2::rat) powi (bitlen a - 1) = 2 ^ nat (bitlen a - 1)"
    using b1 by (simp add: power_int_def)
  also have "\<dots> = of_int (2 ^ nat (bitlen a - 1))" by simp
  also have "\<dots> \<le> of_int a" using l by (simp only: of_int_le_iff)
  finally show "(2::rat) powi (bitlen a - 1) \<le> of_int a" .
  have "(of_int a :: rat) < of_int (2 ^ nat (bitlen a))" using u by (simp only: of_int_less_iff)
  also have "\<dots> = 2 ^ nat (bitlen a)" by simp
  also have "\<dots> = (2::rat) powi bitlen a"
    using b1 by (simp add: power_int_def)
  finally show "of_int a < (2::rat) powi bitlen a" .
qed

lemma floor_log2_bounds:
  assumes "0 < q"
  shows "2 powi (floor_log2 q) \<le> q \<and> q < 2 powi (floor_log2 q + 1)"
proof -
  obtain a b where ab: "quotient_of q = (a, b)" by (cases "quotient_of q")
  then have b: "0 < b" and q: "q = of_int a / of_int b"
    using quotient_of_denom_pos [OF ab] quotient_of_div [OF ab] by simp_all
  from assms q b have a: "0 < a"
    by (simp add: zero_less_divide_iff)
  define e0 where "e0 = bitlen a - bitlen b"
  note A = of_int_bitlen_bounds [OF a] and B = of_int_bitlen_bounds [OF b]
  have bpos: "(0::rat) < of_int b" using b by simp
  have "q < 2 powi bitlen a / 2 powi (bitlen b - 1)"
    unfolding q using A(2) B(1) bpos
    by (intro frac_less) (simp_all add: powi_pos a less_imp_le)
  also have "\<dots> = 2 powi (e0 + 1)"
    unfolding e0_def by (simp add: power_int_diff [symmetric] algebra_simps)
  finally have up: "q < 2 powi (e0 + 1)" .
  have "2 powi (e0 - 1) = (2::rat) powi (bitlen a - 1) / 2 powi bitlen b"
    unfolding e0_def by (simp add: power_int_diff [symmetric] algebra_simps)
  also have "\<dots> \<le> q"
    unfolding q using A(1) B(2) bpos
    using a by (intro frac_le) (simp_all add: powi_pos less_imp_le)
  finally have lo: "2 powi (e0 - 1) \<le> q" .
  have fl: "floor_log2 q = (if 2 powi e0 \<le> q then e0 else e0 - 1)"
    by (simp add: floor_log2_def ab e0_def Let_def)
  show ?thesis
  proof (cases "2 powi e0 \<le> q")
    case True
    with fl up show ?thesis by simp
  next
    case False
    with fl lo show ?thesis by simp
  qed
qed

lemma floor_log2_unique:
  assumes "2 powi e \<le> q" and "q < 2 powi (e + 1)"
  shows "floor_log2 q = e"
proof -
  have qpos: "0 < q" using assms(1) powi_pos [of e] by linarith
  note b = floor_log2_bounds [OF qpos]
  have "\<not> floor_log2 q < e"
  proof
    assume "floor_log2 q < e"
    then have "floor_log2 q + 1 \<le> e" by simp
    then have "(2::rat) powi (floor_log2 q + 1) \<le> 2 powi e" by (rule powi_mono)
    with b assms show False by linarith
  qed
  moreover have "\<not> e < floor_log2 q"
  proof
    assume "e < floor_log2 q"
    then have "e + 1 \<le> floor_log2 q" by simp
    then have "(2::rat) powi (e + 1) \<le> 2 powi floor_log2 q" by (rule powi_mono)
    with b assms show False by linarith
  qed
  ultimately show ?thesis by simp
qed

subsection \<open>Rounding to the nearest integer, ties to even\<close>

lemma round_half_even_cases:
  "round_half_even x = \<lfloor>x\<rfloor> \<or> round_half_even x = \<lfloor>x\<rfloor> + 1"
  by (simp add: round_half_even_def Let_def)

lemma round_half_even_error: "\<bar>of_int (round_half_even x) - x\<bar> \<le> 1 / 2"
proof -
  have "of_int \<lfloor>x\<rfloor> \<le> x" "x < of_int \<lfloor>x\<rfloor> + 1" by linarith+
  then show ?thesis
    by (auto simp: round_half_even_def Let_def abs_le_iff)
qed

lemma round_half_even_of_int [simp]: "round_half_even (of_int k) = k"
  by (simp add: round_half_even_def Let_def)

lemma round_half_even_mono:
  assumes "x \<le> y"
  shows "round_half_even x \<le> round_half_even y"
proof (cases "\<lfloor>x\<rfloor> < \<lfloor>y\<rfloor>")
  case True
  have "round_half_even x \<le> \<lfloor>x\<rfloor> + 1" using round_half_even_cases [of x] by auto
  also have "\<dots> \<le> \<lfloor>y\<rfloor>" using True by simp
  also have "\<dots> \<le> round_half_even y" using round_half_even_cases [of y] by auto
  finally show ?thesis .
next
  case False
  with assms have eq: "\<lfloor>x\<rfloor> = \<lfloor>y\<rfloor>" using floor_mono [OF assms] by simp
  with assms have "x - of_int \<lfloor>x\<rfloor> \<le> y - of_int \<lfloor>y\<rfloor>" by simp
  then show ?thesis
    unfolding round_half_even_def Let_def eq by auto
qed

lemma round_half_even_ge: "of_int m \<le> x \<Longrightarrow> m \<le> round_half_even x"
  using round_half_even_mono [of "of_int m" x] by simp

lemma round_half_even_le: "x \<le> of_int m \<Longrightarrow> round_half_even x \<le> m"
  using round_half_even_mono [of x "of_int m"] by simp

subsection \<open>Rounding to binary64: sign, error and monotonicity\<close>

lemma expo_ge: "- 1022 \<le> expo q"
  by (simp add: expo_def)

lemma floor_log2_le_expo: "floor_log2 \<bar>q\<bar> \<le> expo q"
  by (simp add: expo_def)

lemma expo_upper: "0 < q \<Longrightarrow> q < 2 powi (expo q + 1)"
proof -
  assume q: "0 < q"
  then have "q < 2 powi (floor_log2 q + 1)" using floor_log2_bounds by blast
  also have "\<dots> \<le> 2 powi (expo q + 1)"
    using floor_log2_le_expo [of q] q by (intro powi_mono) simp
  finally show ?thesis .
qed

lemma expo_le:
  assumes "0 < q" and "q < 2 powi (e + 1)" and "- 1022 \<le> e"
  shows "expo q \<le> e"
proof -
  have "\<not> e + 1 \<le> floor_log2 q"
  proof
    assume "e + 1 \<le> floor_log2 q"
    then have "(2::rat) powi (e + 1) \<le> 2 powi floor_log2 q" by (rule powi_mono)
    with floor_log2_bounds [OF assms(1)] assms(2) show False by linarith
  qed
  with assms(1,3) show ?thesis by (simp add: expo_def)
qed

lemma expo_eq:
  assumes "2 powi e \<le> q" and "q < 2 powi (e + 1)" and "- 1022 \<le> e"
  shows "expo q = e"
proof -
  have "0 < q" using assms(1) powi_pos [of e] by linarith
  then show ?thesis
    using floor_log2_unique [OF assms(1,2)] assms(3) by (simp add: expo_def)
qed

lemma expo_lower:
  assumes "0 < q" and "- 1022 < expo q"
  shows "2 powi (expo q) \<le> q"
proof -
  from assms have "expo q = floor_log2 q" by (simp add: expo_def max_def split: if_splits)
  with floor_log2_bounds [OF assms(1)] show ?thesis by simp
qed

lemma expo_mono:
  assumes "0 < x" and "x \<le> y"
  shows "expo x \<le> expo y"
proof -
  have y: "0 < y" using assms by simp
  from expo_upper [OF y] assms(2) have "x < 2 powi (expo y + 1)" by simp
  from expo_le [OF assms(1) this expo_ge] show ?thesis .
qed

lemma ulp_pos: "0 < ulp q"
  by (simp add: ulp_def powi_pos)

lemma rnd_zero [simp]: "rnd 0 = 0"
  by (simp add: rnd_def)

lemma rnd_nonneg: "0 \<le> q \<Longrightarrow> 0 \<le> rnd q"
proof -
  assume "0 \<le> q"
  then have "of_int 0 \<le> q / ulp q" using ulp_pos [of q] by simp
  then have "0 \<le> round_half_even (q / ulp q)" by (rule round_half_even_ge)
  then show ?thesis using ulp_pos [of q] by (simp add: rnd_def)
qed

lemma rnd_error: "\<bar>rnd q - q\<bar> \<le> ulp q / 2"
proof (cases "q = 0")
  case True
  then show ?thesis using ulp_pos [of q] by simp
next
  case False
  have "rnd q - q = (of_int (round_half_even (q / ulp q)) - q / ulp q) * ulp q"
    using False ulp_pos [of q] by (simp add: rnd_def algebra_simps)
  then have "\<bar>rnd q - q\<bar> = \<bar>of_int (round_half_even (q / ulp q)) - q / ulp q\<bar> * ulp q"
    using ulp_pos [of q] by (simp add: abs_mult)
  also have "\<dots> \<le> (1 / 2) * ulp q"
    using round_half_even_error [of "q / ulp q"] ulp_pos [of q]
    by (intro mult_right_mono) simp_all
  finally show ?thesis by simp
qed

lemma rnd_significand:
  assumes "0 < q"
  shows "rnd q = of_int (round_half_even (q / ulp q)) * ulp q"
    and "0 \<le> round_half_even (q / ulp q)"
    and "round_half_even (q / ulp q) \<le> 2 ^ 53"
proof -
  show "rnd q = of_int (round_half_even (q / ulp q)) * ulp q"
    using assms by (simp add: rnd_def)
  have "of_int 0 \<le> q / ulp q" using assms ulp_pos [of q] by simp
  then show "0 \<le> round_half_even (q / ulp q)" by (rule round_half_even_ge)
  have "q < 2 powi (expo q + 1)" using assms by (rule expo_upper)
  also have "\<dots> = 2 ^ 53 * ulp q"
    by (simp add: ulp_def power_int_diff power_int_add)
  finally have "q / ulp q \<le> of_int (2 ^ 53)"
    using ulp_pos [of q] by (simp add: pos_divide_le_eq)
  then show "round_half_even (q / ulp q) \<le> 2 ^ 53" by (rule round_half_even_le)
qed

lemma rnd_le_pow:
  assumes "0 < q"
  shows "rnd q \<le> 2 powi (expo q + 1)"
proof -
  have "rnd q = of_int (round_half_even (q / ulp q)) * ulp q" using assms by (rule rnd_significand)
  also have "\<dots> \<le> of_int (2 ^ 53) * ulp q"
    using rnd_significand(3) [OF assms] ulp_pos [of q]
    by (intro mult_right_mono) (simp_all only: of_int_le_iff less_imp_le)
  also have "\<dots> = 2 powi (expo q + 1)"
    by (simp add: ulp_def power_int_diff power_int_add)
  finally show ?thesis .
qed

lemma rnd_ge_pow:
  assumes "2 powi (expo q) \<le> q"
  shows "2 powi (expo q) \<le> rnd q"
proof -
  have q: "0 < q" using assms powi_pos [of "expo q"] by linarith
  have "2 powi (expo q) = of_int (2 ^ 52) * ulp q"
    by (simp add: ulp_def power_int_diff)
  with assms have "of_int (2 ^ 52) \<le> q / ulp q"
    using ulp_pos [of q] by (simp add: pos_le_divide_eq)
  then have "2 ^ 52 \<le> round_half_even (q / ulp q)" by (rule round_half_even_ge)
  then have "of_int (2 ^ 52) * ulp q \<le> of_int (round_half_even (q / ulp q)) * ulp q"
    using ulp_pos [of q] by (intro mult_right_mono) (simp_all only: of_int_le_iff less_imp_le)
  then show ?thesis
    using q by (simp add: rnd_def ulp_def power_int_diff)
qed

lemma rnd_mono:
  assumes "0 \<le> x" and "x \<le> y"
  shows "rnd x \<le> rnd y"
proof (cases "x = 0")
  case True
  then show ?thesis using rnd_nonneg [of y] assms by simp
next
  case False
  with assms have x: "0 < x" and y: "0 < y" by simp_all
  show ?thesis
  proof (cases "expo x = expo y")
    case True
    then have u: "ulp x = ulp y" by (simp add: ulp_def)
    have "x / ulp y \<le> y / ulp y" using assms(2) ulp_pos [of y] by (simp add: divide_right_mono)
    then have "round_half_even (x / ulp y) \<le> round_half_even (y / ulp y)"
      by (rule round_half_even_mono)
    then have "of_int (round_half_even (x / ulp y)) * ulp y
        \<le> of_int (round_half_even (y / ulp y)) * ulp y"
      using ulp_pos [of y] by (intro mult_right_mono) (simp_all only: of_int_le_iff less_imp_le)
    then show ?thesis using x y u by (simp add: rnd_def)
  next
    case False
    with expo_mono [OF x assms(2)] have lt: "expo x < expo y" by simp
    then have "- 1022 < expo y" using expo_ge [of x] by simp
    from expo_lower [OF y this] have "2 powi (expo y) \<le> rnd y" by (rule rnd_ge_pow)
    moreover have "rnd x \<le> 2 powi (expo x + 1)" using x by (rule rnd_le_pow)
    moreover have "(2::rat) powi (expo x + 1) \<le> 2 powi (expo y)"
      using lt by (intro powi_mono) simp
    ultimately show ?thesis by linarith
  qed
qed

subsection \<open>Numbers that rounding leaves unchanged\<close>

text \<open>A multiple of a binary64 spacing with at most 53 significant bits is left as it is.\<close>

lemma rnd_exact:
  assumes a: "0 < a"
    and grid: "a = of_int k * 2 powi j"
    and j: "- 1074 \<le> j"
    and le: "a \<le> 2 powi (j + 53)"
  shows "rnd a = a"
proof (cases "a = 2 powi (j + 53)")
  case True
  have "a < 2 powi (j + 53 + 1)" unfolding True by (intro powi_strict_mono) simp
  with True have e: "expo a = j + 53"
    using j by (intro expo_eq) simp_all
  have "expo a - 52 = j + 1" using e by simp
  then have u: "ulp a = 2 powi (j + 1)" by (simp only: ulp_def)
  have "j + 53 = (j + 1) + 52" by simp
  then have "(2::rat) powi (j + 53) = 2 powi (j + 1) * 2 powi 52"
    by (simp only: powi_add)
  with True have "a = 2 powi (j + 1) * 2 powi 52" by simp
  then have "a / ulp a = 2 powi 52"
    unfolding u using powi_pos [of "j + 1"] by simp
  then have d: "a / ulp a = of_int (2 ^ 52)" by simp
  then have "round_half_even (a / ulp a) = 2 ^ 52"
    by (simp only: round_half_even_of_int)
  moreover have "of_int (2 ^ 52) * ulp a = a"
    using d ulp_pos [of a] by (simp add: field_simps)
  ultimately show ?thesis using a by (simp add: rnd_def)
next
  case False
  with le have "a < 2 powi (j + 52 + 1)" by (simp add: add.commute add.left_commute)
  from expo_le [OF a this] j have e: "expo a \<le> j + 52" by simp
  define n where "n = nat (j + 52 - expo a)"
  have n: "j = expo a - 52 + int n" using e by (simp add: n_def)
  define u where "u = ulp a"
  have u: "0 < u" unfolding u_def by (rule ulp_pos)
  have "2 powi j = u * 2 ^ n"
    unfolding u_def ulp_def by (subst n) (simp add: power_int_add)
  with grid have au: "a = of_int (k * 2 ^ n) * u" by simp
  then have "a / u = of_int (k * 2 ^ n)" using u by simp
  then have r: "round_half_even (a / u) = k * 2 ^ n"
    by (simp only: round_half_even_of_int)
  have "rnd a = of_int (round_half_even (a / u)) * u"
    using a by (simp add: rnd_def u_def)
  also have "\<dots> = of_int (k * 2 ^ n) * u" by (simp only: r)
  also have "\<dots> = a" by (simp only: au [symmetric])
  finally show ?thesis .
qed

lemma rnd_one [simp]: "rnd 1 = 1"
  by code_simp

lemma rnd_two [simp]: "rnd 2 = 2"
  by code_simp

lemma rnd_half [simp]: "rnd (1 / 2) = 1 / 2"
  by code_simp

lemma rnd_le_one: "0 \<le> q \<Longrightarrow> q \<le> 1 \<Longrightarrow> rnd q \<le> 1"
  using rnd_mono [of q 1] by simp

lemma rnd_double_exact:
  assumes "0 \<le> q"
  shows "rnd (2 * rnd q) = 2 * rnd q"
proof (cases "rnd q = 0")
  case True
  then show ?thesis by simp
next
  case False
  with assms have q: "0 < q" by (cases "q = 0") simp_all
  define k where "k = round_half_even (q / ulp q)"
  note s = rnd_significand [OF q, folded k_def]
  from False rnd_nonneg [OF assms] have pos: "0 < 2 * rnd q" by simp
  define j where "j = expo q - 52 + 1"
  have pj: "(2::rat) powi j = 2 powi (expo q - 52) * 2"
    unfolding j_def by (simp only: powi_Suc mult.commute)
  have g: "2 * rnd q = of_int k * 2 powi j"
    unfolding s(1) ulp_def pj by simp
  have "of_int k * 2 powi j \<le> of_int (2 ^ 53) * (2::rat) powi j"
    using s(3) powi_pos [of j]
    by (intro mult_right_mono) (simp_all only: of_int_le_iff less_imp_le)
  also have "\<dots> = 2 powi (j + 53)"
    by (simp add: power_int_add)
  finally have le: "2 * rnd q \<le> 2 powi (j + 53)" using g by simp
  have "- 1074 \<le> j" using expo_ge [of q] by (simp add: j_def)
  with pos g le show ?thesis by (intro rnd_exact [of _ k j]) simp_all
qed

lemma max_double_ge_two: "2 \<le> max_double"
  by (simp add: max_double_def)

lemma to_double_Fin:
  assumes "0 \<le> q" and "q \<le> 2"
  shows "to_double q = Fin (rnd q)"
proof -
  have "rnd q \<le> 2" using rnd_mono [OF assms] by simp
  moreover have "0 \<le> rnd q" using assms(1) by (rule rnd_nonneg)
  ultimately show ?thesis
    using max_double_ge_two by (simp add: to_double_def Let_def)
qed

subsection \<open>Known binary64 values\<close>

text \<open>
  The model reproduces the binary64 numbers Python prints for \<^verbatim>\<open>0.1\<close>,
  \<^verbatim>\<open>0.1 + 0.2\<close> (which is not \<^verbatim>\<open>0.3\<close>) and \<^verbatim>\<open>0.3\<close>, and breaks ties
  towards the even significand.
\<close>

lemma rnd_tenth: "rnd (1 / 10) = 3602879701896397 / 36028797018963968"
  by code_simp

lemma rnd_tenth_plus_fifth:
  "rnd (rnd (1 / 10) + rnd (1 / 5)) = 1351079888211149 / 4503599627370496"
  by code_simp

lemma rnd_three_tenths: "rnd (3 / 10) = 5404319552844595 / 18014398509481984"
  by code_simp

lemma rnd_ties_to_even:
  "rnd 9007199254740993 = 9007199254740992" "rnd 9007199254740995 = 9007199254740996"
  by code_simp+

section \<open>Metrics\<close>

lemma ref_ratio_unit:
  assumes "0 \<le> n" and "n \<le> d"
  shows "\<exists>q. ref_ratio n d = Fin q \<and> 0 \<le> q \<and> q \<le> 1 \<and> rnd (2 * q) = 2 * q"
proof (cases "d = 0")
  case True
  then show ?thesis by (simp add: ref_ratio_def)
next
  case False
  with assms have d: "0 < d" by simp
  define x :: rat where "x = of_int n / of_int d"
  have x: "0 \<le> x" "x \<le> 1" using assms d by (simp_all add: x_def)
  then have "to_double x = Fin (rnd x)" by (intro to_double_Fin) simp_all
  then have "ref_ratio n d = Fin (rnd x)" using False by (simp add: ref_ratio_def x_def)
  moreover have "0 \<le> rnd x" using x(1) by (rule rnd_nonneg)
  moreover have "rnd x \<le> 1" using x by (rule rnd_le_one)
  moreover have "rnd (2 * rnd x) = 2 * rnd x" using x(1) by (rule rnd_double_exact)
  ultimately show ?thesis by blast
qed

lemma safe_div_counts:
  assumes "0 \<le> n" and "n \<le> d"
  shows "safe_div (PyInt n) (PyInt d) = Inr (ref_ratio n d)"
proof (cases "d = 0")
  case True
  then show ?thesis by (simp add: safe_div_def ref_ratio_def)
next
  case False
  from ref_ratio_unit [OF assms] obtain q where "ref_ratio n d = Fin q" by blast
  with False show ?thesis
    by (simp add: safe_div_def ref_ratio_def finite_or_overflow_def)
qed

lemma harmonic_le:
  fixes a b :: rat
  assumes "0 \<le> a" "a \<le> 1" "0 \<le> b" "b \<le> 1"
  shows "2 * a * b \<le> a + b"
proof -
  have "0 \<le> a * (1 - b) + b * (1 - a)" using assms by simp
  then show ?thesis by (simp add: algebra_simps)
qed

lemma f1_unit:
  assumes a: "0 \<le> a" "a \<le> 1" and b: "0 \<le> b" "b \<le> 1" and ex: "rnd (2 * a) = 2 * a"
  shows "safe_div (PyFloat (fl_mul (fl_mul (Fin 2) (Fin a)) (Fin b))) (PyFloat (fl_add (Fin a) (Fin b)))
           = Inr (ref_f1 (Fin a) (Fin b))"
    and "\<exists>q. ref_f1 (Fin a) (Fin b) = Fin q \<and> 0 \<le> q \<and> q \<le> 1"
proof -
  have "to_double (2 * a) = Fin (rnd (2 * a))" using a by (intro to_double_Fin) simp_all
  then have m1: "to_double (2 * a) = Fin (2 * a)" using ex by simp
  have ab: "0 \<le> 2 * a * b" using a b by simp
  have ab2: "2 * a * b \<le> a + b" using a b by (rule harmonic_le)
  have s2: "a + b \<le> 2" using a b by simp
  have m: "to_double (2 * a * b) = Fin (rnd (2 * a * b))"
    using ab ab2 s2 by (intro to_double_Fin) simp_all
  have s: "to_double (a + b) = Fin (rnd (a + b))" using a b s2 by (intro to_double_Fin) simp_all
  have m0: "0 \<le> rnd (2 * a * b)" using ab by (rule rnd_nonneg)
  have ms: "rnd (2 * a * b) \<le> rnd (a + b)" using ab ab2 by (rule rnd_mono)
  have s0: "0 \<le> rnd (a + b)" using a b by (intro rnd_nonneg) simp
  show "safe_div (PyFloat (fl_mul (fl_mul (Fin 2) (Fin a)) (Fin b))) (PyFloat (fl_add (Fin a) (Fin b)))
           = Inr (ref_f1 (Fin a) (Fin b))"
    by (simp add: safe_div_def ref_f1_def float_truediv_def m1 m s)
  show "\<exists>q. ref_f1 (Fin a) (Fin b) = Fin q \<and> 0 \<le> q \<and> q \<le> 1"
  proof (cases "rnd (a + b) = 0")
    case True
    then show ?thesis by (simp add: ref_f1_def s)
  next
    case False
    with s0 have sp: "0 < rnd (a + b)" by simp
    define x where "x = rnd (2 * a * b) / rnd (a + b)"
    have x: "0 \<le> x" "x \<le> 1" using m0 ms sp by (simp_all add: x_def)
    then have "to_double x = Fin (rnd x)" by (intro to_double_Fin) simp_all
    then have "ref_f1 (Fin a) (Fin b) = Fin (rnd x)"
      using False by (simp add: ref_f1_def m1 m s x_def)
    moreover have "0 \<le> rnd x" using x(1) by (rule rnd_nonneg)
    moreover have "rnd x \<le> 1" using x by (rule rnd_le_one)
    ultimately show ?thesis by blast
  qed
qed

lemma metrics_from_counts_ref:
  assumes "0 \<le> tp c" "0 \<le> fp c" "0 \<le> tn c" "0 \<le> fn c"
  shows "metrics_from_counts c = Inr (ref_metrics c)"
proof -
  have acc: "safe_div (PyInt (tp c + tn c)) (PyInt (tp c + fp c + tn c + fn c))
      = Inr (ref_ratio (tp c + tn c) (tp c + fp c + tn c + fn c))"
    using assms by (intro safe_div_counts) simp_all
  have pre: "safe_div (PyInt (tp c)) (PyInt (tp c + fp c)) = Inr (ref_ratio (tp c) (tp c + fp c))"
    using assms by (intro safe_div_counts) simp_all
  have rec: "safe_div (PyInt (tp c)) (PyInt (tp c + fn c)) = Inr (ref_ratio (tp c) (tp c + fn c))"
    using assms by (intro safe_div_counts) simp_all
  have spe: "safe_div (PyInt (tn c)) (PyInt (tn c + fp c)) = Inr (ref_ratio (tn c) (tn c + fp c))"
    using assms by (intro safe_div_counts) simp_all
  have fpr: "safe_div (PyInt (fp c)) (PyInt (fp c + tn c)) = Inr (ref_ratio (fp c) (fp c + tn c))"
    using assms by (intro safe_div_counts) simp_all
  have fnr: "safe_div (PyInt (fn c)) (PyInt (fn c + tp c)) = Inr (ref_ratio (fn c) (fn c + tp c))"
    using assms by (intro safe_div_counts) simp_all
  obtain p where p: "ref_ratio (tp c) (tp c + fp c) = Fin p" "0 \<le> p" "p \<le> 1" "rnd (2 * p) = 2 * p"
    using ref_ratio_unit [of "tp c" "tp c + fp c"] assms by auto
  obtain r where r: "ref_ratio (tp c) (tp c + fn c) = Fin r" "0 \<le> r" "r \<le> 1"
    using ref_ratio_unit [of "tp c" "tp c + fn c"] assms by auto
  have f: "safe_div (PyFloat (fl_mul (fl_mul (Fin 2) (ref_ratio (tp c) (tp c + fp c)))
                              (ref_ratio (tp c) (tp c + fn c))))
             (PyFloat (fl_add (ref_ratio (tp c) (tp c + fp c)) (ref_ratio (tp c) (tp c + fn c))))
      = Inr (ref_f1 (ref_ratio (tp c) (tp c + fp c)) (ref_ratio (tp c) (tp c + fn c)))"
    unfolding p(1) r(1) using p(2-) r(2-) by (intro f1_unit(1))
  show ?thesis
    unfolding metrics_from_counts_def Let_def
    by (simp only: acc pre rec spe fpr fnr f bind_result_simps ref_metrics_def) simp
qed

subsection \<open>Rounding next to one\<close>

lemma powi_m54: "(2::rat) powi (- 54) = 1 / 2 ^ 54"
  by simp

lemma powi_m53: "(2::rat) powi (- 53) = 1 / 2 ^ 53"
  by simp

lemma powi_m52: "(2::rat) powi (- 52) = 1 / 2 ^ 52"
  by simp

lemma powi_m1: "(2::rat) powi (- 1) = 1 / 2"
  by simp

lemma rnd_near_one:
  assumes lo: "1 - 2 powi (- 54) \<le> s" and hi: "s \<le> 1 + 2 powi (- 54)"
  shows "rnd s = 1"
proof (cases "s < 1")
  case True
  have s: "1 / 2 \<le> s" using lo by (simp add: powi_m54)
  have "expo s = - 1"
    using s True by (intro expo_eq) simp_all
  then have u: "ulp s = 1 / 2 ^ 53" by (simp add: ulp_def)
  define t where "t = s * 2 ^ 53"
  have t: "2 ^ 53 - 1 / 2 \<le> t" "t < 2 ^ 53"
    using lo True by (simp_all add: t_def powi_m54)
  have fl: "\<lfloor>t\<rfloor> = 2 ^ 53 - 1"
    using t by (intro floor_unique) simp_all
  have "round_half_even t = 2 ^ 53"
    using t unfolding round_half_even_def Let_def fl by simp
  moreover have "s / ulp s = t" by (simp add: u t_def)
  ultimately show ?thesis using s by (simp add: rnd_def u)
next
  case False
  then have s: "1 \<le> s" by simp
  have s2: "s < 2" using hi by (simp add: powi_m54)
  have "expo s = 0"
    using s s2 by (intro expo_eq) simp_all
  then have u: "ulp s = 1 / 2 ^ 52" by (simp add: ulp_def)
  define t where "t = s * 2 ^ 52"
  have t: "2 ^ 52 \<le> t" "t \<le> 2 ^ 52 + 1 / 4"
    using hi s by (simp_all add: t_def powi_m54)
  have fl: "\<lfloor>t\<rfloor> = 2 ^ 52"
    using t by (intro floor_unique) simp_all
  have "round_half_even t = 2 ^ 52"
    using t unfolding round_half_even_def Let_def fl by simp
  moreover have "s / ulp s = t" by (simp add: u t_def)
  ultimately show ?thesis using s by (simp add: rnd_def u)
qed

subsection \<open>A ratio and its complement\<close>

lemma rnd_complement_small:
  assumes x: "0 < x" "x < 1 / 2"
  shows "\<bar>rnd x + rnd (1 - x) - 1\<bar> \<le> 2 powi (- 54)"
proof -
  define y where "y = 1 - x"
  have y: "1 / 2 < y" "y < 1" using x by (simp_all add: y_def)
  have ey: "expo y = - 1" using y by (intro expo_eq) simp_all
  have uy: "ulp y = 2 powi (- 53)" by (simp add: ulp_def ey)
  have "expo x \<le> - 2" using x by (intro expo_le) simp_all
  define j where "j = expo x - 52"
  have j: "j \<le> - 54" using \<open>expo x \<le> - 2\<close> by (simp add: j_def)
  define u :: rat where "u = 2 powi j"
  have ux: "ulp x = u" by (simp add: ulp_def u_def j_def)
  have u: "0 < u" unfolding u_def by (rule powi_pos)
  define n where "n = nat (- 54 - j)"
  have n: "- 54 = j + int n" using j by (simp add: n_def)
  define H :: int where "H = 2 ^ n"
  have h54: "(2::rat) powi (- 54) = of_int H * u"
    by (subst n) (simp add: power_int_add u_def H_def)
  have "(2::rat) powi (- 53) = 2 * 2 powi (- 54)" by simp
  also have "\<dots> = 2 * (of_int H * u)" by (simp only: h54)
  also have "\<dots> = of_int (2 * H) * u" by simp
  finally have h53: "(2::rat) powi (- 53) = of_int (2 * H) * u" .
  have "of_int (2 ^ 54 * H) * u = 2 ^ 54 * (of_int H * u)" by simp
  also have "\<dots> = 2 ^ 54 * 2 powi (- 54)" by (simp only: h54)
  also have "\<dots> = 1" by simp
  finally have h1: "(1::rat) = of_int (2 ^ 54 * H) * u" by simp
  define ka where "ka = round_half_even (x / ulp x)"
  define kb where "kb = round_half_even (y / ulp y)"
  have a: "rnd x = of_int ka * u"
    using rnd_significand(1) [OF x(1)] by (simp add: ka_def ux)
  have ypos: "0 < y" using y by simp
  have "rnd y = of_int kb * 2 powi (- 53)"
    using rnd_significand(1) [OF ypos] by (simp only: kb_def uy)
  also have "\<dots> = of_int kb * (of_int (2 * H) * u)" by (simp only: h53)
  also have "\<dots> = of_int (kb * (2 * H)) * u" by simp
  finally have b: "rnd y = of_int (kb * (2 * H)) * u" .
  define D where "D = ka + kb * (2 * H) - 2 ^ 54 * H"
  have "rnd x + rnd y - 1 = of_int ka * u + of_int (kb * (2 * H)) * u - of_int (2 ^ 54 * H) * u"
    using a b h1 by simp
  also have "\<dots> = of_int D * u" by (simp add: D_def algebra_simps)
  finally have s: "rnd x + rnd y - 1 = of_int D * u" .
  have ea: "\<bar>rnd x - x\<bar> \<le> u / 2" using rnd_error [of x] by (simp add: ux)
  have "\<bar>rnd y - y\<bar> \<le> 2 powi (- 53) / 2" using rnd_error [of y] by (simp only: uy)
  also have "\<dots> = of_int (2 * H) * u / 2" by (simp only: h53)
  also have "\<dots> = of_int H * u" by simp
  finally have eb: "\<bar>rnd y - y\<bar> \<le> of_int H * u" .
  have "rnd x + rnd y - 1 = (rnd x - x) + (rnd y - y)" by (simp add: y_def)
  then have "\<bar>rnd x + rnd y - 1\<bar> \<le> u / 2 + of_int H * u"
    using ea eb by linarith
  then have "\<bar>of_int D\<bar> * u \<le> (1 / 2 + of_int H) * u"
    using u by (simp add: s abs_mult algebra_simps)
  then have "\<bar>of_int D :: rat\<bar> \<le> 1 / 2 + of_int H"
    using u by (simp only: mult_le_cancel_right_pos)
  then have "(of_int \<bar>D\<bar> :: rat) < of_int (H + 1)" by simp
  then have "\<bar>D\<bar> < H + 1" by (simp only: of_int_less_iff)
  then have "\<bar>D\<bar> \<le> H" by simp
  then have "(of_int \<bar>D\<bar> :: rat) \<le> of_int H" by (simp only: of_int_le_iff)
  then have "\<bar>of_int D\<bar> * u \<le> of_int H * u"
    using u by (intro mult_right_mono) simp_all
  then have "\<bar>rnd x + rnd y - 1\<bar> \<le> of_int H * u"
    using u by (simp add: s abs_mult)
  then show ?thesis by (simp only: h54 y_def)
qed

lemma rnd_complement_half:
  assumes "0 \<le> x" "x \<le> 1 / 2"
  shows "rnd (rnd x + rnd (1 - x)) = 1"
proof -
  consider "x = 0" | "x = 1 / 2" | "0 < x" "x < 1 / 2" using assms by linarith
  then show ?thesis
  proof cases
    case 1
    then show ?thesis by simp
  next
    case 2
    have "(1::rat) - 1 / 2 = 1 / 2" by simp
    then have "rnd x + rnd (1 - x) = 1" unfolding 2 by (simp only: rnd_half)
    then show ?thesis by simp
  next
    case 3
    note small = rnd_complement_small [OF 3]
    have "1 - 2 powi (- 54) \<le> rnd x + rnd (1 - x)" using small by linarith
    moreover have "rnd x + rnd (1 - x) \<le> 1 + 2 powi (- 54)" using small by linarith
    ultimately show ?thesis by (rule rnd_near_one)
  qed
qed

lemma rnd_complement:
  assumes "0 \<le> x" "x \<le> 1"
  shows "rnd (rnd x + rnd (1 - x)) = 1"
proof (cases "x \<le> 1 / 2")
  case True
  with assms(1) show ?thesis by (rule rnd_complement_half)
next
  case False
  with assms have "0 \<le> 1 - x" "1 - x \<le> 1 / 2" by simp_all
  from rnd_complement_half [OF this] show ?thesis by (simp add: add.commute)
qed

lemma ratio_complement:
  assumes "0 \<le> n" "0 \<le> m" "0 < n + m"
  shows "fl_add (ref_ratio n (n + m)) (ref_ratio m (m + n)) = Fin 1"
proof -
  define x :: rat where "x = of_int n / of_int (n + m)"
  have x: "0 \<le> x" "x \<le> 1" using assms by (simp_all add: x_def)
  have c: "of_int m / of_int (m + n) = 1 - x"
    using assms by (simp add: x_def field_simps)
  have x': "0 \<le> 1 - x" "1 - x \<le> 1" using x by simp_all
  have a: "to_double x = Fin (rnd x)" using x by (intro to_double_Fin) simp_all
  have b: "to_double (1 - x) = Fin (rnd (1 - x))" using x' by (intro to_double_Fin) simp_all
  have r1: "ref_ratio n (n + m) = Fin (rnd x)"
    using assms a by (simp add: ref_ratio_def x_def)
  have "m + n \<noteq> 0" using assms by simp
  then have r2: "ref_ratio m (m + n) = Fin (rnd (1 - x))"
    using b unfolding ref_ratio_def c [symmetric] by simp
  have s0: "0 \<le> rnd x + rnd (1 - x)" using rnd_nonneg [OF x(1)] rnd_nonneg [OF x'(1)] by simp
  have s2: "rnd x + rnd (1 - x) \<le> 2" using rnd_le_one [OF x] rnd_le_one [OF x'] by simp
  have "to_double (rnd x + rnd (1 - x)) = Fin (rnd (rnd x + rnd (1 - x)))"
    using s0 s2 by (rule to_double_Fin)
  then show ?thesis
    unfolding r1 r2 using rnd_complement [OF x] by simp
qed

text \<open>
  Claim C2.  For counts that are not negative, \<^verbatim>\<open>metrics_from_counts\<close> returns the
  report whose seven ratios are the reference formulas: \<open>accuracy = (tp+tn)/total\<close>,
  \<open>precision = tp/(tp+fp)\<close>, \<open>recall = tp/(tp+fn)\<close>, \<open>specificity = tn/(tn+fp)\<close>,
  \<open>f1 = 2\<cdot>precision\<cdot>recall/(precision+recall)\<close>, \<open>fpr = fp/(fp+tn)\<close>,
  \<open>fnr = fn/(fn+tp)\<close>, each division giving 0.0 on a zero denominator.
\<close>

theorem metrics_from_counts_formulas:
  assumes "0 \<le> tp c" "0 \<le> fp c" "0 \<le> tn c" "0 \<le> fn c"
  shows "metrics_from_counts c =
     Inr \<lparr>counts_entry = c,
          accuracy = ref_ratio (tp c + tn c) (tp c + fp c + tn c + fn c),
          precision = ref_ratio (tp c) (tp c + fp c),
          recall = ref_ratio (tp c) (tp c + fn c),
          specificity = ref_ratio (tn c) (tn c + fp c),
          f1 = ref_f1 (ref_ratio (tp c) (tp c + fp c)) (ref_ratio (tp c) (tp c + fn c)),
          fpr = ref_ratio (fp c) (fp c + tn c),
          fnr = ref_ratio (fn c) (fn c + tp c)\<rparr>"
  using metrics_from_counts_ref [OF assms] by (simp add: ref_metrics_def)

lemma rnd_two_fifths: "rnd (2 / 5) = 3602879701896397 / 9007199254740992"
  by code_simp

theorem metrics_from_counts_formulas_witness:
  "\<exists>m. metrics_from_counts \<lparr>tp = 1, fp = 2, tn = 3, fn = 4\<rparr> = Inr m
     \<and> accuracy m = Fin (3602879701896397 / 9007199254740992)
     \<and> precision m = ref_ratio 1 3
     \<and> f1 m = ref_f1 (ref_ratio 1 3) (ref_ratio 1 5)"
proof -
  have "to_double (2 / 5) = Fin (rnd (2 / 5))" by (intro to_double_Fin) simp_all
  then have "ref_ratio 4 10 = Fin (3602879701896397 / 9007199254740992)"
    by (simp add: ref_ratio_def rnd_two_fifths)
  with metrics_from_counts_formulas [of "\<lparr>tp = 1, fp = 2, tn = 3, fn = 4\<rparr>"]
  show ?thesis by simp
qed

text \<open>
  Claim C3.  For counts that are not negative, all four zero included,
  \<^verbatim>\<open>metrics_from_counts\<close> raises nothing, and each of the seven ratios \<open>x\<close> it
  returns satisfies \<^verbatim>\<open>0.0 <= x <= 1.0\<close> (so none is NaN or infinite) and is 0.0 when
  its denominator is zero.
\<close>

theorem metrics_unit_interval:
  assumes "0 \<le> tp c" "0 \<le> fp c" "0 \<le> tn c" "0 \<le> fn c"
  shows "\<exists>m. metrics_from_counts c = Inr m
     \<and> fl_ge (accuracy m) (Fin 0) \<and> fl_ge (Fin 1) (accuracy m)
     \<and> fl_ge (precision m) (Fin 0) \<and> fl_ge (Fin 1) (precision m)
     \<and> fl_ge (recall m) (Fin 0) \<and> fl_ge (Fin 1) (recall m)
     \<and> fl_ge (specificity m) (Fin 0) \<and> fl_ge (Fin 1) (specificity m)
     \<and> fl_ge (f1 m) (Fin 0) \<and> fl_ge (Fin 1) (f1 m)
     \<and> fl_ge (fpr m) (Fin 0) \<and> fl_ge (Fin 1) (fpr m)
     \<and> fl_ge (fnr m) (Fin 0) \<and> fl_ge (Fin 1) (fnr m)
     \<and> (tp c + fp c + tn c + fn c = 0 \<longrightarrow> accuracy m = Fin 0)
     \<and> (tp c + fp c = 0 \<longrightarrow> precision m = Fin 0)
     \<and> (tp c + fn c = 0 \<longrightarrow> recall m = Fin 0 \<and> fnr m = Fin 0)
     \<and> (tn c + fp c = 0 \<longrightarrow> specificity m = Fin 0 \<and> fpr m = Fin 0)
     \<and> (fl_eq (fl_add (precision m) (recall m)) (Fin 0) \<longrightarrow> f1 m = Fin 0)"
proof -
  have unit: "\<And>n d. 0 \<le> n \<Longrightarrow> n \<le> d \<Longrightarrow> fl_ge (ref_ratio n d) (Fin 0) \<and> fl_ge (Fin 1) (ref_ratio n d)"
    using ref_ratio_unit by fastforce
  obtain p where p: "ref_ratio (tp c) (tp c + fp c) = Fin p" "0 \<le> p" "p \<le> 1" "rnd (2 * p) = 2 * p"
    using ref_ratio_unit [of "tp c" "tp c + fp c"] assms by auto
  obtain r where r: "ref_ratio (tp c) (tp c + fn c) = Fin r" "0 \<le> r" "r \<le> 1"
    using ref_ratio_unit [of "tp c" "tp c + fn c"] assms by auto
  from f1_unit(2) [OF p(2,3) r(2,3) p(4)]
  have f: "fl_ge (ref_f1 (ref_ratio (tp c) (tp c + fp c)) (ref_ratio (tp c) (tp c + fn c))) (Fin 0)
      \<and> fl_ge (Fin 1) (ref_f1 (ref_ratio (tp c) (tp c + fp c)) (ref_ratio (tp c) (tp c + fn c)))"
    unfolding p(1) r(1) by fastforce
  have z: "\<And>n. ref_ratio n 0 = Fin 0" by (simp add: ref_ratio_def)
  have fz: "\<And>a b. fl_eq (fl_add a b) (Fin 0) \<Longrightarrow> ref_f1 a b = Fin 0" by (simp add: ref_f1_def)
  show ?thesis
    unfolding metrics_from_counts_ref [OF assms] ref_metrics_def
    using assms f unit [of "tp c + tn c" "tp c + fp c + tn c + fn c"]
      unit [of "tp c" "tp c + fp c"] unit [of "tp c" "tp c + fn c"]
      unit [of "tn c" "tn c + fp c"] unit [of "fp c" "fp c + tn c"]
      unit [of "fn c" "fn c + tp c"]
    by (simp add: z fz add.commute)
qed

theorem metrics_unit_interval_witness:
  "metrics_from_counts \<lparr>tp = 0, fp = 0, tn = 0, fn = 0\<rparr> =
     Inr \<lparr>counts_entry = \<lparr>tp = 0, fp = 0, tn = 0, fn = 0\<rparr>, accuracy = Fin 0, precision = Fin 0,
          recall = Fin 0, specificity = Fin 0, f1 = Fin 0, fpr = Fin 0, fnr = Fin 0\<rparr>"
proof -
  from metrics_unit_interval [of "\<lparr>tp = 0, fp = 0, tn = 0, fn = 0\<rparr>"]
  obtain m where m: "metrics_from_counts \<lparr>tp = 0, fp = 0, tn = 0, fn = 0\<rparr> = Inr m"
    and z: "accuracy m = Fin 0" "precision m = Fin 0" "recall m = Fin 0" "fnr m = Fin 0"
      "specificity m = Fin 0" "fpr m = Fin 0"
    and f: "fl_eq (fl_add (precision m) (recall m)) (Fin 0) \<longrightarrow> f1 m = Fin 0"
    by auto
  have "to_double 0 = Fin 0" using to_double_Fin [of 0] by simp
  with f z have "f1 m = Fin 0" by simp
  moreover have "counts_entry m = \<lparr>tp = 0, fp = 0, tn = 0, fn = 0\<rparr>"
    using m by (auto simp: metrics_from_counts_def Let_def bind_result_Inr_iff)
  ultimately show ?thesis using m z by (cases m) simp
qed

text \<open>
  Claim C10.  For counts that are not negative, the report satisfies
  \<^verbatim>\<open>recall + fnr == 1\<close> when \<open>tp + fn > 0\<close> and
  \<^verbatim>\<open>specificity + fpr == 1\<close> when \<open>tn + fp > 0\<close>, the sums being float sums; when
  the shared denominator is zero both summands are 0.0.
\<close>

theorem complement_identities:
  assumes "0 \<le> tp c" "0 \<le> fp c" "0 \<le> tn c" "0 \<le> fn c"
  shows "\<exists>m. metrics_from_counts c = Inr m
     \<and> (0 < tp c + fn c \<longrightarrow> fl_add (recall m) (fnr m) = Fin 1)
     \<and> (tp c + fn c = 0 \<longrightarrow> recall m = Fin 0 \<and> fnr m = Fin 0)
     \<and> (0 < tn c + fp c \<longrightarrow> fl_add (specificity m) (fpr m) = Fin 1)
     \<and> (tn c + fp c = 0 \<longrightarrow> specificity m = Fin 0 \<and> fpr m = Fin 0)"
proof -
  have z: "\<And>n. ref_ratio n 0 = Fin 0" by (simp add: ref_ratio_def)
  show ?thesis
    unfolding metrics_from_counts_ref [OF assms] ref_metrics_def
    using assms ratio_complement [of "tp c" "fn c"] ratio_complement [of "tn c" "fp c"]
    by (simp add: z add.commute)
qed

lemma rnd_third: "rnd (1 / 3) = 6004799503160661 / 18014398509481984"
  by code_simp

lemma rnd_two_thirds: "rnd (2 / 3) = 6004799503160661 / 9007199254740992"
  by code_simp

theorem complement_identities_witness:
  "\<exists>m. metrics_from_counts \<lparr>tp = 1, fp = 0, tn = 0, fn = 2\<rparr> = Inr m
     \<and> recall m = Fin (6004799503160661 / 18014398509481984)
     \<and> fnr m = Fin (6004799503160661 / 9007199254740992)
     \<and> fl_add (recall m) (fnr m) = Fin 1
     \<and> specificity m = Fin 0 \<and> fpr m = Fin 0"
proof -
  have "to_double (1 / 3) = Fin (rnd (1 / 3))" by (intro to_double_Fin) simp_all
  then have a: "ref_ratio 1 3 = Fin (6004799503160661 / 18014398509481984)"
    by (simp add: ref_ratio_def rnd_third)
  have "to_double (2 / 3) = Fin (rnd (2 / 3))" by (intro to_double_Fin) simp_all
  then have b: "ref_ratio 2 3 = Fin (6004799503160661 / 9007199254740992)"
    by (simp add: ref_ratio_def rnd_two_thirds)
  have m: "metrics_from_counts \<lparr>tp = 1, fp = 0, tn = 0, fn = 2\<rparr>
      = Inr (ref_metrics \<lparr>tp = 1, fp = 0, tn = 0, fn = 2\<rparr>)"
    by (intro metrics_from_counts_ref) simp_all
  from complement_identities [of "\<lparr>tp = 1, fp = 0, tn = 0, fn = 2\<rparr>"]
  show ?thesis
    unfolding m by (simp add: ref_metrics_def a b)
qed

section \<open>Sweeps and input validation\<close>

lemma traversed_idem [simp]: "traversed (traversed v) = traversed v"
  by (cases v) simp_all











text \<open>
  A generator of labels is exhausted by \<^verbatim>\<open>confusion_counts\<close>, so
  \<^verbatim>\<open>binary_metrics\<close> finds no label and fails on the lengths, with scores and labels
  of equal number.
\<close>

lemma analyze_threshold_one_shot_labels:
  "analyze_threshold (Sequence [Fin (7/10)]) (Iterator [PInt 1]) (Fin (1/2)) 1 0 True
     = Inl (LengthMismatch 0 1)"
  by (simp add: analyze_threshold_def apply_threshold_def as_pyiter_def confusion_counts_def
      binary_metrics_def)




lemma to_list_int_loop_ok:
  "\<forall>v\<in>set vs. as_int v \<noteq> None \<Longrightarrow> to_list_int_loop vs name i = Inr (map (the \<circ> as_int) vs)"
  by (induction vs arbitrary: i) auto

lemma to_list_int_loop_bad:
  "\<exists>v\<in>set vs. as_int v = None \<Longrightarrow>
     to_list_int_loop vs name i =
       Inl (TypeKind name (i + length (takeWhile (\<lambda>v. as_int v \<noteq> None) vs))
              (type_name (hd (dropWhile (\<lambda>v. as_int v \<noteq> None) vs))))"
proof (induction vs arbitrary: i)
  case Nil
  then show ?case by simp
next
  case (Cons v vs)
  show ?case
  proof (cases "as_int v")
    case None
    then show ?thesis by simp
  next
    case (Some n)
    with Cons.prems have "\<exists>v\<in>set vs. as_int v = None" by auto
    from Cons.IH [OF this, of "Suc i"] Some show ?thesis by simp
  qed
qed

text \<open>
  Claim C9, as amended.  \<^verbatim>\<open>_to_list_int\<close> coerces nothing: it accepts a sequence
  exactly when every element is an instance of \<^verbatim>\<open>int\<close> (a \<^verbatim>\<open>bool\<close> is one),
  and otherwise fails with the type error carrying the sequence name and the index of
  the first element that is not, and its type name.  \<^verbatim>\<open>confusion_counts\<close> and
  \<^verbatim>\<open>binary_metrics\<close> fail with that same error, \<^verbatim>\<open>y_true\<close> being checked before
  \<^verbatim>\<open>y_pred\<close>.  A float is never accepted, whatever its value.
\<close>

theorem type_kind_isinstance:
  "((\<forall>v\<in>set vs. as_int v \<noteq> None) \<longrightarrow>
       to_list_int (Seq vs) name = Inr (map (the \<circ> as_int) vs))
   \<and> ((\<exists>v\<in>set vs. as_int v = None) \<longrightarrow>
       to_list_int (Seq vs) name =
         Inl (TypeKind name (length (takeWhile (\<lambda>v. as_int v \<noteq> None) vs))
                (type_name (hd (dropWhile (\<lambda>v. as_int v \<noteq> None) vs)))))
   \<and> (\<forall>j t. to_list_int y_true ''y_true'' = Inl (TypeKind ''y_true'' j t) \<longrightarrow>
         confusion_counts y_true y_pred' pos neg strict = Inl (TypeKind ''y_true'' j t)
         \<and> binary_metrics y_true y_pred' pos neg strict = Inl (TypeKind ''y_true'' j t))
   \<and> (\<forall>yt j t. to_list_int y_true ''y_true'' = Inr yt
           \<and> to_list_int y_pred' ''y_pred'' = Inl (TypeKind ''y_pred'' j t) \<longrightarrow>
         confusion_counts y_true y_pred' pos neg strict = Inl (TypeKind ''y_pred'' j t)
         \<and> binary_metrics y_true y_pred' pos neg strict = Inl (TypeKind ''y_pred'' j t))
   \<and> (\<forall>x. as_int (PFloat x) = None)
   \<and> (\<forall>n. as_int (PInt n) = Some n)
   \<and> (\<forall>b. as_int (PBool b) = Some (if b then 1 else 0))"
  using to_list_int_loop_ok [of vs name 0] to_list_int_loop_bad [of vs name 0]
  by (simp add: confusion_counts_def binary_metrics_def)

theorem type_kind_isinstance_witness:
  "to_list_int (Seq [PInt 3, PBool True, PInt 0]) ''y_true'' = Inr [3, 1, 0]
   \<and> to_list_int (Seq [PInt 1, PStr ''1'', PNone]) ''y_pred'' = Inl (TypeKind ''y_pred'' 1 ''str'')
   \<and> confusion_counts (Seq [PInt 3, PBool True, PInt 0]) (Seq [PInt 1, PStr ''1'', PNone]) 1 0 True
        = Inl (TypeKind ''y_pred'' 1 ''str'')
   \<and> binary_metrics (Seq [PInt 1, PNone]) (Seq [PInt 1]) 1 0 True = Inl (TypeKind ''y_true'' 1 ''NoneType'')"
proof -
  have a: "\<forall>v\<in>set [PInt 3, PBool True, PInt 0]. as_int v \<noteq> None" by simp
  have b: "\<exists>v\<in>set [PInt 1, PStr ''1'', PNone]. as_int v = None" by simp
  have c: "\<exists>v\<in>set [PInt 1, PNone]. as_int v = None" by simp
  from type_kind_isinstance [of "[PInt 3, PBool True, PInt 0]" "''y_true''"] a
  have 1: "to_list_int (Seq [PInt 3, PBool True, PInt 0]) ''y_true'' = Inr [3, 1, 0]" by simp
  from type_kind_isinstance [of "[PInt 1, PStr ''1'', PNone]" "''y_pred''"] b
  have 2: "to_list_int (Seq [PInt 1, PStr ''1'', PNone]) ''y_pred'' = Inl (TypeKind ''y_pred'' 1 ''str'')"
    by simp
  from type_kind_isinstance [of "[PInt 1, PNone]" "''y_true''"] c
  have 3: "to_list_int (Seq [PInt 1, PNone]) ''y_true'' = Inl (TypeKind ''y_true'' 1 ''NoneType'')"
    by simp
  from type_kind_isinstance [of "[]" "''''" "Seq [PInt 3, PBool True, PInt 0]"
      "Seq [PInt 1, PStr ''1'', PNone]" 1 0 True] 1 2
  have 4: "confusion_counts (Seq [PInt 3, PBool True, PInt 0]) (Seq [PInt 1, PStr ''1'', PNone]) 1 0 True
        = Inl (TypeKind ''y_pred'' 1 ''str'')" by blast
  from type_kind_isinstance [of "[]" "''''" "Seq [PInt 1, PNone]" "Seq [PInt 1]" 1 0 True] 3
  have 5: "binary_metrics (Seq [PInt 1, PNone]) (Seq [PInt 1]) 1 0 True
      = Inl (TypeKind ''y_true'' 1 ''NoneType'')" by blast
  from 1 2 4 5 show ?thesis by simp
qed

text \<open>
  Claim C9 as stated fails at the input it names: 2.0 is representable as an integer,
  and \<^verbatim>\<open>y_true = [2.0]\<close> is rejected with the type error.
\<close>

theorem integer_valued_float_rejected:
  "int_representable (PFloat (Fin 2))
   \<and> to_list_int (Seq [PFloat (Fin 2)]) ''y_true'' = Inl (TypeKind ''y_true'' 0 ''float'')
   \<and> confusion_counts (Seq [PFloat (Fin 2)]) (Seq [PInt 1]) 1 0 True
        = Inl (TypeKind ''y_true'' 0 ''float'')"
  by (simp add: confusion_counts_def)

end
